theory Spec2Isabelle
  imports Complex_Main
begin

section \<open>Data model (src/Go/Enums.ts, src/Go/Types.ts)\<close>

datatype GoColor = White | Black | Empty

datatype GoOpponent =
  NoAI | Netburners | SlumSnakes | TheBlackHand | Tetrads | Daedalus | Illuminati | W0r1d_d43m0n

datatype GoPlayType = PlayMove | PlayPass | PlayGameOver

datatype GoValidity =
  pointBroken | pointNotEmpty | boardRepeated | noSuicide | notYourTurn | gameOver | invalid | valid

text \<open>The enum values of \<open>GoValidity\<close> are these strings; \<open>getMove\<close> tests one for truthiness.\<close>

fun validityText :: "GoValidity \<Rightarrow> string" where
  "validityText pointBroken = ''That node is offline; a piece cannot be placed there''"
| "validityText pointNotEmpty = ''That node is already occupied by a piece''"
| "validityText boardRepeated = ''It is illegal to repeat prior board states''"
| "validityText noSuicide = ''It is illegal to cause your own pieces to be captured''"
| "validityText notYourTurn = ''It is not your turn to play''"
| "validityText gameOver = ''The game is over''"
| "validityText invalid = ''Invalid move''"
| "validityText valid = ''Valid move''"

type_synonym SimpleBoard = "string list"

text \<open>
  A \<open>PointState\<close> object. The fields \<open>x\<close> and \<open>y\<close> of the source are \<open>px\<close> and \<open>py\<close> here.
  The source's \<open>liberties\<close> array holds references to point objects of the same board; a
  reference is represented by the coordinates stored in the referenced point, and the
  object is read back through the board (\<open>getPoint\<close>). \<open>None\<close> is \<open>null\<close>.
\<close>

record PointState =
  color :: GoColor
  chain :: string
  liberties :: "(int \<times> int) list option"
  px :: int
  py :: int

text \<open>A board is an array of columns; a cell is a point or \<open>null\<close> (\<open>None\<close>).\<close>

type_synonym Board = "PointState option list list"

record BoardState =
  board :: Board
  previousPlayer :: "GoColor option"
  previousBoards :: "string list"
  ai :: GoOpponent
  passCount :: nat
  cheatCount :: nat
  cheatCountForWhite :: nat

text \<open>
  A move of a generator. Its \<open>point\<close> is a reference to a point object of the board, so
  (as in a liberties list) the coordinates of that point.
\<close>

record Move =
  point :: "int \<times> int"
  oldLibertyCount :: "int option"
  newLibertyCount :: "int option"
  createsLife :: "bool option"

datatype Play = MovePlay int int | PassPlay | GameOverPlay

text \<open>Array indexing \<open>xs[i]\<close> of JavaScript: \<open>undefined\<close> (\<open>None\<close>) outside the array.\<close>

definition nth_opt :: "'a list \<Rightarrow> int \<Rightarrow> 'a option" where
  "nth_opt xs i = (if 0 \<le> i \<and> i < int (length xs) then Some (xs ! nat i) else None)"

text \<open>
  \<open>board[x]?.[y]\<close> with its three outcomes: \<open>None\<close> is \<open>undefined\<close> (outside the grid),
  \<open>Some None\<close> is \<open>null\<close> (an offline node), \<open>Some (Some p)\<close> is a point.
\<close>

definition getCell :: "Board \<Rightarrow> int \<Rightarrow> int \<Rightarrow> PointState option option" where
  "getCell b i j = (case nth_opt b i of None \<Rightarrow> None | Some column \<Rightarrow> nth_opt column j)"

text \<open>The same read where the code only asks whether the result is nullish.\<close>

definition getPoint :: "Board \<Rightarrow> int \<Rightarrow> int \<Rightarrow> PointState option" where
  "getPoint b i j = (case getCell b i j of Some (Some p) \<Rightarrow> Some p | _ \<Rightarrow> None)"

text \<open>Indexed map, as \<open>Array.prototype.map((v, i) => ...)\<close>.\<close>

definition mapi :: "(int \<Rightarrow> 'a \<Rightarrow> 'b) \<Rightarrow> 'a list \<Rightarrow> 'b list" where
  "mapi f xs = map (\<lambda>(i, v). f (int i) v) (enumerate 0 xs)"

section \<open>Textual boards (src/Go/boardAnalysis/boardAnalysis.ts)\<close>

definition blankPointState :: "GoColor \<Rightarrow> int \<Rightarrow> int \<Rightarrow> PointState" where
  "blankPointState c i j = \<lparr>color = c, chain = [], liberties = None, px = i, py = j\<rparr>"

definition pointFromChar :: "int \<Rightarrow> int \<Rightarrow> char \<Rightarrow> PointState option" where
  "pointFromChar i j ch =
     (if ch = CHR ''#'' then None
      else if ch = CHR ''X'' then Some (blankPointState Black i j)
      else if ch = CHR ''O'' then Some (blankPointState White i j)
      else Some (blankPointState Empty i j))"

definition boardFromSimpleBoard :: "SimpleBoard \<Rightarrow> Board" where
  "boardFromSimpleBoard simpleBoard =
     mapi (\<lambda>i column. mapi (\<lambda>j ch. pointFromChar i j ch) column) simpleBoard"

definition charFromPoint :: "PointState option \<Rightarrow> char" where
  "charFromPoint p =
     (case p of
        None \<Rightarrow> CHR ''#''
      | Some q \<Rightarrow> if color q = Black then CHR ''X'' else if color q = White then CHR ''O'' else CHR ''.'')"

definition simpleBoardFromBoard :: "Board \<Rightarrow> SimpleBoard" where
  "simpleBoardFromBoard b = map (\<lambda>column. foldl (\<lambda>str p. str @ [charFromPoint p]) [] column) b"

definition boardStringFromBoard :: "Board \<Rightarrow> string" where
  "boardStringFromBoard b = concat (simpleBoardFromBoard b)"

text \<open>
  \<open>Math.round(Math.sqrt(n))\<close> for a string length \<open>n\<close>: the least \<open>r\<close> with \<open>n \<le> r * r + r\<close>,
  which is the integer nearest to the square root (\<open>roundSqrt_nearest\<close> below); no
  length is a half-way case. The search is bounded by \<open>n\<close> itself.
\<close>

fun roundSqrtFrom :: "nat \<Rightarrow> nat \<Rightarrow> nat \<Rightarrow> nat" where
  "roundSqrtFrom 0 r n = r"
| "roundSqrtFrom (Suc k) r n = (if n \<le> r * r + r then r else roundSqrtFrom k (Suc r) n)"

definition roundSqrt :: "nat \<Rightarrow> nat" where
  "roundSqrt n = roundSqrtFrom n 0 n"

definition getColorOnBoardString :: "string \<Rightarrow> int \<Rightarrow> int \<Rightarrow> GoColor option" where
  "getColorOnBoardString boardString i j =
     (let boardSize = int (roundSqrt (length boardString));
          ch = nth_opt boardString (i * boardSize + j)
      in if ch = Some (CHR ''X'') then Some Black
         else if ch = Some (CHR ''O'') then Some White
         else if ch = Some (CHR ''.'') then Some Empty
         else None)"

text \<open>A well-formed SimpleBoard: square, over the four characters.\<close>

definition wellFormedSimpleBoard :: "SimpleBoard \<Rightarrow> bool" where
  "wellFormedSimpleBoard s =
     (\<forall>column \<in> set s. length column = length s
        \<and> set column \<subseteq> {CHR ''X'', CHR ''O'', CHR ''.'', CHR ''#''})"

text \<open>A square board of size \<open>n\<close>.\<close>

definition squareBoard :: "Board \<Rightarrow> nat \<Rightarrow> bool" where
  "squareBoard b n = (length b = n \<and> (\<forall>column \<in> set b. length column = n))"

section \<open>Neighbours and chains (src/Go/boardState/boardState.ts)\<close>

record Neighbor =
  north :: "PointState option"
  east :: "PointState option"
  south :: "PointState option"
  west :: "PointState option"

definition findNeighbors :: "Board \<Rightarrow> int \<Rightarrow> int \<Rightarrow> Neighbor" where
  "findNeighbors b i j =
     \<lparr>north = getPoint b i (j + 1), east = getPoint b (i + 1) j,
      south = getPoint b i (j - 1), west = getPoint b (i - 1) j\<rparr>"

text \<open>\<open>.filter(isNotNullish)\<close>.\<close>

fun filterNotNullish :: "'a option list \<Rightarrow> 'a list" where
  "filterNotNullish [] = []"
| "filterNotNullish (None # xs) = filterNotNullish xs"
| "filterNotNullish (Some v # xs) = v # filterNotNullish xs"

definition getArrayFromNeighbor :: "Neighbor \<Rightarrow> PointState list" where
  "getArrayFromNeighbor neighborObject =
     filterNotNullish [north neighborObject, east neighborObject, south neighborObject, west neighborObject]"

definition contains :: "PointState list \<Rightarrow> PointState \<Rightarrow> bool" where
  "contains arr p = (\<exists>q \<in> set arr. px q = px p \<and> py q = py p)"

text \<open>A reference to a point object, as stored in a liberties list.\<close>

definition ref :: "PointState \<Rightarrow> int \<times> int" where
  "ref p = (px p, py p)"

text \<open>
  A mutation of a point object reached through a reference: the object is the cell of
  the board at the coordinates it carries.
\<close>

definition modifyPoint :: "(PointState \<Rightarrow> PointState) \<Rightarrow> Board \<Rightarrow> int \<times> int \<Rightarrow> Board" where
  "modifyPoint f b r =
     (case getPoint b (fst r) (snd r) of
        None \<Rightarrow> b
      | Some p \<Rightarrow> b[nat (fst r) := (b ! nat (fst r))[nat (snd r) := Some (f p)]])"

definition clearChains :: "Board \<Rightarrow> Board" where
  "clearChains b = map (map (map_option (\<lambda>p. p\<lparr>chain := [], liberties := None\<rparr>))) b"

text \<open>
  One step of the inner \<open>forEach\<close> of \<open>findAdjacentPointsInChain\<close> on a neighbour; the state
  is \<open>(checkedPoints, adjacentPoints, pointsToCheckNeighbors)\<close>.
\<close>

definition visitNeighbor ::
  "PointState \<Rightarrow> PointState list \<times> PointState list \<times> PointState list \<Rightarrow> PointState
     \<Rightarrow> PointState list \<times> PointState list \<times> PointState list" where
  "visitNeighbor currentPoint st neighbor =
     (case st of (checkedPoints, adjacentPoints, pointsToCheckNeighbors) \<Rightarrow>
        if color neighbor = color currentPoint \<and> \<not> contains checkedPoints neighbor
        then (checkedPoints @ [neighbor], adjacentPoints @ [neighbor], pointsToCheckNeighbors @ [neighbor])
        else (checkedPoints @ [neighbor], adjacentPoints, pointsToCheckNeighbors))"

text \<open>The body of the \<open>while\<close> loop, for a non-empty \<open>pointsToCheckNeighbors\<close> (\<open>pop\<close> takes its last element).\<close>

definition floodStep ::
  "Board \<Rightarrow> PointState list \<times> PointState list \<times> PointState list
     \<Rightarrow> PointState list \<times> PointState list \<times> PointState list" where
  "floodStep b st =
     (case st of (checkedPoints, adjacentPoints, pointsToCheckNeighbors) \<Rightarrow>
        let currentPoint = last pointsToCheckNeighbors;
            neighbors = findNeighbors b (px currentPoint) (py currentPoint)
        in foldl (visitNeighbor currentPoint)
             (checkedPoints @ [currentPoint], adjacentPoints, butlast pointsToCheckNeighbors)
             (getArrayFromNeighbor neighbors))"

text \<open>The points of the board, column by column.\<close>

definition allPoints :: "Board \<Rightarrow> PointState list" where
  "allPoints b = filterNotNullish (concat b)"

text \<open>The number of points of the board that \<open>contains\<close> does not find in \<open>checkedPoints\<close>.\<close>

definition uncheckedCount :: "Board \<Rightarrow> PointState list \<Rightarrow> nat" where
  "uncheckedCount b checkedPoints = card (ref ` set (allPoints b) - ref ` set checkedPoints)"


lemma filterNotNullish_set: "set (filterNotNullish xs) = {v. Some v \<in> set xs}"
  by (induction xs rule: filterNotNullish.induct) auto

lemma nth_opt_mem: "nth_opt xs i = Some v \<Longrightarrow> v \<in> set xs"
  by (auto simp: nth_opt_def split: if_splits)

lemma getPoint_allPoints: "getPoint b i j = Some p \<Longrightarrow> p \<in> set (allPoints b)"
proof -
  assume g: "getPoint b i j = Some p"
  then obtain column where c: "nth_opt b i = Some column" and p: "nth_opt column j = Some (Some p)"
    by (auto simp: getPoint_def getCell_def split: option.splits)
  from c have "column \<in> set b" by (rule nth_opt_mem)
  moreover from p have "Some p \<in> set column" by (rule nth_opt_mem)
  ultimately show ?thesis by (auto simp: allPoints_def filterNotNullish_set)
qed

lemma neighbors_allPoints:
  "n \<in> set (getArrayFromNeighbor (findNeighbors b i j)) \<Longrightarrow> n \<in> set (allPoints b)"
  by (auto simp: getArrayFromNeighbor_def findNeighbors_def filterNotNullish_set
      intro: getPoint_allPoints)

lemma uncheckedCount_snoc_le: "uncheckedCount b (c @ [n]) \<le> uncheckedCount b c"
  unfolding uncheckedCount_def by (intro card_mono) (auto simp: allPoints_def)

lemma uncheckedCount_snoc_less:
  assumes "n \<in> set (allPoints b)" "\<not> contains c n"
  shows "uncheckedCount b (c @ [n]) < uncheckedCount b c"
proof -
  have "ref n \<notin> ref ` set c" using assms(2) by (auto simp: contains_def ref_def)
  then have "ref n \<in> ref ` set (allPoints b) - ref ` set c" using assms(1) by auto
  moreover have "ref n \<notin> ref ` set (allPoints b) - ref ` set (c @ [n])" by simp
  moreover have "ref ` set (allPoints b) - ref ` set (c @ [n]) \<subseteq> ref ` set (allPoints b) - ref ` set c"
    by auto
  ultimately have "ref ` set (allPoints b) - ref ` set (c @ [n]) \<subset> ref ` set (allPoints b) - ref ` set c"
    by blast
  then show ?thesis unfolding uncheckedCount_def by (intro psubset_card_mono) auto
qed

lemma visitNeighbor_measure:
  assumes "n \<in> set (allPoints b)" "visitNeighbor cur (c, a, s) n = (c', a', s')"
  shows "2 * uncheckedCount b c' + length s' \<le> 2 * uncheckedCount b c + length s"
proof (cases "color n = color cur \<and> \<not> contains c n")
  case True
  with assms(2) have "c' = c @ [n]" "s' = s @ [n]" by (auto simp: visitNeighbor_def)
  with uncheckedCount_snoc_less [OF assms(1), of c] True show ?thesis by simp
next
  case False
  with assms(2) have "c' = c @ [n]" "s' = s" by (auto simp: visitNeighbor_def)
  with uncheckedCount_snoc_le [of b c n] show ?thesis by simp
qed

lemma foldl_visitNeighbor_measure:
  assumes "set ns \<subseteq> set (allPoints b)" "foldl (visitNeighbor cur) (c, a, s) ns = (c', a', s')"
  shows "2 * uncheckedCount b c' + length s' \<le> 2 * uncheckedCount b c + length s"
  using assms
proof (induction ns arbitrary: c a s)
  case Nil
  then show ?case by simp
next
  case (Cons n ns)
  obtain c1 a1 s1 where v: "visitNeighbor cur (c, a, s) n = (c1, a1, s1)"
    by (cases "visitNeighbor cur (c, a, s) n") auto
  with Cons.prems have "foldl (visitNeighbor cur) (c1, a1, s1) ns = (c', a', s')" by simp
  with Cons have "2 * uncheckedCount b c' + length s' \<le> 2 * uncheckedCount b c1 + length s1"
    by auto
  moreover have "2 * uncheckedCount b c1 + length s1 \<le> 2 * uncheckedCount b c + length s"
    using Cons.prems(1) v by (intro visitNeighbor_measure [of n b cur c a s c1 a1 s1]) auto
  ultimately show ?case by linarith
qed

lemma floodStep_measure:
  assumes "s \<noteq> []" "floodStep b (c, a, s) = (c', a', s')"
  shows "2 * uncheckedCount b c' + length s' < 2 * uncheckedCount b c + length s"
proof -
  let ?cur = "last s"
  have f: "foldl (visitNeighbor ?cur) (c @ [?cur], a, butlast s)
        (getArrayFromNeighbor (findNeighbors b (px ?cur) (py ?cur))) = (c', a', s')"
    using assms(2) by (simp add: floodStep_def Let_def)
  have "2 * uncheckedCount b c' + length s' \<le> 2 * uncheckedCount b (c @ [?cur]) + length (butlast s)"
    using f by (rule foldl_visitNeighbor_measure [rotated]) (auto intro: neighbors_allPoints)
  also have "\<dots> \<le> 2 * uncheckedCount b c + length (butlast s)"
    using uncheckedCount_snoc_le [of b c ?cur] by simp
  also have "\<dots> < 2 * uncheckedCount b c + length s" using assms(1) by simp
  finally show ?thesis .
qed

text \<open>
  The \<open>while (pointsToCheckNeighbors.length)\<close> loop. It terminates: every point pushed had
  not been checked, and every neighbour looked at is checked from then on.
\<close>

function floodLoop ::
  "Board \<Rightarrow> PointState list \<Rightarrow> PointState list \<Rightarrow> PointState list \<Rightarrow> PointState list" where
  "floodLoop b checkedPoints adjacentPoints pointsToCheckNeighbors =
     (if pointsToCheckNeighbors = [] then adjacentPoints
      else case floodStep b (checkedPoints, adjacentPoints, pointsToCheckNeighbors) of
             (checkedPoints', adjacentPoints', pointsToCheckNeighbors') \<Rightarrow>
               floodLoop b checkedPoints' adjacentPoints' pointsToCheckNeighbors')"
  by pat_completeness auto
termination
  apply (relation "measure (\<lambda>(b, c, a, s). 2 * uncheckedCount b c + length s)")
   apply simp
  apply (auto split: prod.splits dest: floodStep_measure)
  done

declare floodLoop.simps [simp del]

text \<open>
  An uncaught exception of the source. Every one in this program is a \<open>TypeError\<close>: a
  property read on \<open>undefined\<close>.
\<close>

datatype JsError = TypeError

text \<open>
  \<open>findAdjacentPointsInChain\<close> reads \<open>board[x][y]\<close> without a guard, so it throws where the
  column \<open>board[x]\<close> does not exist.
\<close>

definition findAdjacentPointsInChain :: "Board \<Rightarrow> int \<Rightarrow> int \<Rightarrow> JsError + PointState list" where
  "findAdjacentPointsInChain b i j =
     (case nth_opt b i of
        None \<Rightarrow> Inl TypeError
      | Some column \<Rightarrow>
          (case nth_opt column j of
             Some (Some p) \<Rightarrow> Inr (floodLoop b [] [p] [p])
           | _ \<Rightarrow> Inr []))"

section \<open>Liberties and captures (src/Go/boardAnalysis/boardAnalysis.ts)\<close>

definition isPointInChain :: "PointState \<Rightarrow> PointState list \<Rightarrow> bool" where
  "isPointInChain p c = (\<exists>chainPoint \<in> set c. px chainPoint = px p \<and> py chainPoint = py p)"

text \<open>
  \<open>Set.prototype.add\<close> followed by spreading the set: insertion order, no duplicates. A
  \<open>Set\<close> of objects compares by identity; two points of one board are the same object
  exactly when they are equal as values, since each carries its own coordinates.
\<close>

definition setAdd :: "'a list \<Rightarrow> 'a \<Rightarrow> 'a list" where
  "setAdd s v = (if v \<in> set s then s else s @ [v])"

definition getAllNeighbors :: "Board \<Rightarrow> PointState list \<Rightarrow> PointState list" where
  "getAllNeighbors b c =
     foldl (\<lambda>chainNeighbors p.
              foldl setAdd chainNeighbors
                (filter (\<lambda>neighborPoint. \<not> isPointInChain neighborPoint c)
                   (getArrayFromNeighbor (findNeighbors b (px p) (py p)))))
       [] c"

definition findLibertiesForChain :: "Board \<Rightarrow> PointState list \<Rightarrow> PointState list" where
  "findLibertiesForChain b c = filter (\<lambda>neighbor. color neighbor = Empty) (getAllNeighbors b c)"

text \<open>The decimal rendering of an integer, as a template literal prints a number.\<close>

function natToString :: "nat \<Rightarrow> string" where
  "natToString n =
     (if n < 10 then [''0123456789'' ! n]
      else natToString (n div 10) @ [''0123456789'' ! (n mod 10)])"
  by pat_completeness auto
termination
  by (relation "measure id") auto

declare natToString.simps [simp del]

definition numberToString :: "int \<Rightarrow> string" where
  "numberToString i = (if i < 0 then CHR ''-'' # natToString (nat (- i)) else natToString (nat i))"

text \<open>The chain id \<open>`${point.x},${point.y}`\<close>.\<close>

definition chainId :: "PointState \<Rightarrow> string" where
  "chainId p = numberToString (px p) @ '','' @ numberToString (py p)"

text \<open>
  The body of the double loop of \<open>updateChains\<close> at the cell \<open>(x, y)\<close>. The cell has just
  been read there, so \<open>findAdjacentPointsInChain\<close> does not throw
  (\<open>findAdjacentPointsInChain_point\<close> below) and the \<open>Inl\<close> branch is never taken.
\<close>

definition updateChainsAt :: "Board \<Rightarrow> int \<times> int \<Rightarrow> Board" where
  "updateChainsAt b pos =
     (case getPoint b (fst pos) (snd pos) of
        None \<Rightarrow> b
      | Some p \<Rightarrow>
          if chain p \<noteq> [] then b
          else (case findAdjacentPointsInChain b (fst pos) (snd pos) of
                  Inl e \<Rightarrow> b
                | Inr chainMembers \<Rightarrow>
                    let libertiesForChain = findLibertiesForChain b chainMembers;
                        id = chainId p
                    in foldl (modifyPoint (\<lambda>member. member\<lparr>chain := id,
                                 liberties := Some (map ref libertiesForChain)\<rparr>))
                         b (map ref chainMembers)))"

text \<open>The cells in the order of the double loop: \<open>x\<close> outside, \<open>y\<close> inside.\<close>

definition scanOrder :: "Board \<Rightarrow> (int \<times> int) list" where
  "scanOrder b = concat (mapi (\<lambda>i column. mapi (\<lambda>j cell. (i, j)) column) b)"

definition updateChains :: "bool \<Rightarrow> Board \<Rightarrow> Board" where
  "updateChains resetChains b =
     (let b1 = (if resetChains then clearChains b else b)
      in foldl updateChainsAt b1 (scanOrder b1))"

text \<open>
  The object \<open>chains\<close> of \<open>getAllChains\<close>, as the list of its entries in the order of
  \<open>Object.keys\<close>. For the ids that \<open>updateChains\<close> assigns (each holds a comma, so none is an
  array index and none is a name inherited from \<open>Object.prototype\<close>) that is the order in
  which the keys were first written.
\<close>

definition addToChains ::
  "(string \<times> PointState list) list \<Rightarrow> PointState \<Rightarrow> (string \<times> PointState list) list" where
  "addToChains entries p =
     (if chain p = [] then entries
      else if chain p \<in> fst ` set entries
      then map (\<lambda>(key, ps). if key = chain p then (key, ps @ [p]) else (key, ps)) entries
      else entries @ [(chain p, [p])])"

definition getAllChains :: "Board \<Rightarrow> PointState list list" where
  "getAllChains b = map snd (foldl addToChains [] (allPoints b))"

definition resetChainsById :: "string list \<Rightarrow> Board \<Rightarrow> Board" where
  "resetChainsById chainIds b =
     map (map (map_option (\<lambda>p. if chain p \<in> set chainIds then p\<lparr>chain := [], liberties := Some []\<rparr> else p))) b"

text \<open>\<open>chain[0]\<close> of a chain of \<open>getAllChains\<close>, which is never empty (\<open>getAllChains_nonempty\<close>).\<close>

definition findCapturedChainOfColor :: "PointState list list \<Rightarrow> GoColor \<Rightarrow> PointState list list" where
  "findCapturedChainOfColor chainList playerColor =
     filter (\<lambda>c. color (hd c) = playerColor \<and> map_option length (liberties (hd c)) = Some 0) chainList"

text \<open>The result is a list of chains or \<open>null\<close>.\<close>

definition findAllCapturedChains :: "PointState list list \<Rightarrow> GoColor \<Rightarrow> PointState list list option" where
  "findAllCapturedChains chainList playerWhoMoved =
     (let opposingPlayer = (if playerWhoMoved = White then Black else White);
          enemyChainsToCapture = findCapturedChainOfColor chainList opposingPlayer
      in if enemyChainsToCapture \<noteq> [] then Some enemyChainsToCapture
         else let friendlyChainsToCapture = findCapturedChainOfColor chainList playerWhoMoved
              in if friendlyChainsToCapture \<noteq> [] then Some friendlyChainsToCapture else None)"

definition captureChain :: "Board \<Rightarrow> PointState list \<Rightarrow> Board" where
  "captureChain b c =
     foldl (modifyPoint (\<lambda>p. p\<lparr>color := Empty, chain := [], liberties := Some []\<rparr>)) b (map ref c)"

definition updateCaptures :: "GoColor \<Rightarrow> bool \<Rightarrow> Board \<Rightarrow> Board" where
  "updateCaptures playerWhoMoved resetChains b =
     (let b1 = updateChains resetChains b;
          chainList = getAllChains b1;
          chainsToCapture = findAllCapturedChains chainList playerWhoMoved
      in case chainsToCapture of
           None \<Rightarrow> b1
         | Some cs \<Rightarrow> if cs = [] then b1 else updateChains True (foldl captureChain b1 cs))"

section \<open>Playing a move on a copy\<close>

text \<open>
  Board objects live in a store; a board reference is an index into it. \<open>structuredClone\<close>
  copies the grid and every point object reachable from it, so the clone shares no object
  with the original: it is a new entry of the store with the same value. A function of
  the source that updates a board in place is applied to the entry its argument refers to.
\<close>

type_synonym Store = "Board list"

definition getBoardCopy :: "Store \<Rightarrow> nat \<Rightarrow> nat \<times> Store" where
  "getBoardCopy h boardRef = (length h, h @ [h ! boardRef])"

definition inPlace :: "(Board \<Rightarrow> Board) \<Rightarrow> nat \<Rightarrow> Store \<Rightarrow> Store" where
  "inPlace f boardRef h = h[boardRef := f (h ! boardRef)]"

text \<open>The result is the returned board reference and the store after the call.\<close>

definition evaluateMoveResult :: "Store \<Rightarrow> nat \<Rightarrow> int \<Rightarrow> int \<Rightarrow> GoColor \<Rightarrow> bool \<Rightarrow> nat \<times> Store" where
  "evaluateMoveResult h boardRef i j player resetChains =
     (case getBoardCopy h boardRef of
        (evaluationBoard, h1) \<Rightarrow>
          (case getPoint (h1 ! evaluationBoard) i j of
             None \<Rightarrow> (boardRef, h1)
           | Some p \<Rightarrow>
               let h2 = inPlace (\<lambda>b. modifyPoint (\<lambda>q. q\<lparr>color := player\<rparr>) b (i, j)) evaluationBoard h1;
                   neighbors = getArrayFromNeighbor (findNeighbors (h2 ! boardRef) i j);
                   chainIdsToUpdate = chain p # map chain neighbors;
                   h3 = inPlace (resetChainsById chainIdsToUpdate) evaluationBoard h2;
                   h4 = inPlace (updateCaptures player resetChains) evaluationBoard h3
               in (evaluationBoard, h4)))"

text \<open>The board that \<open>evaluateMoveResult\<close> returns, for a caller that only reads it.\<close>

definition evaluateMoveResultBoard :: "Board \<Rightarrow> int \<Rightarrow> int \<Rightarrow> GoColor \<Rightarrow> bool \<Rightarrow> Board" where
  "evaluateMoveResultBoard b i j player resetChains =
     (case evaluateMoveResult [b] 0 i j player resetChains of (r, h) \<Rightarrow> h ! r)"

section \<open>Legality of a move\<close>

definition findAdjacentLibertiesForPoint :: "Board \<Rightarrow> int \<Rightarrow> int \<Rightarrow> Neighbor" where
  "findAdjacentLibertiesForPoint b i j =
     (let neighbors = findNeighbors b i j;
          liberty = (\<lambda>n. case n of Some p \<Rightarrow> if color p = Empty then Some p else None | None \<Rightarrow> None)
      in \<lparr>north = liberty (north neighbors), east = liberty (east neighbors),
          south = liberty (south neighbors), west = liberty (west neighbors)\<rparr>)"

text \<open>The optional argument \<open>_player\<close> (here \<open>playerArg\<close>) is \<open>None\<close> when it is left out.\<close>

definition findAdjacentLibertiesAndAlliesForPoint :: "Board \<Rightarrow> int \<Rightarrow> int \<Rightarrow> GoColor option \<Rightarrow> Neighbor" where
  "findAdjacentLibertiesAndAlliesForPoint b i j playerArg =
     (let currentPoint = getPoint b i j;
          player = (case playerArg of
                      Some c \<Rightarrow> Some c
                    | None \<Rightarrow> (case currentPoint of
                                 None \<Rightarrow> None
                               | Some p \<Rightarrow> if color p = Empty then None else Some (color p)));
          adjacentLiberties = findAdjacentLibertiesForPoint b i j;
          neighbors = findNeighbors b i j;
          pick = (\<lambda>liberty n. if liberty \<noteq> None \<or> map_option color n = player then n else None)
      in \<lparr>north = pick (north adjacentLiberties) (north neighbors),
          east = pick (east adjacentLiberties) (east neighbors),
          south = pick (south adjacentLiberties) (south neighbors),
          west = pick (west adjacentLiberties) (west neighbors)\<rparr>)"

text \<open>\<open>neighbor?.liberties?.length\<close>: \<open>None\<close> is \<open>undefined\<close>.\<close>

definition libertiesLength :: "PointState \<Rightarrow> int option" where
  "libertiesLength p = map_option (\<lambda>ls. int (length ls)) (liberties p)"

definition friendlyNeighborsOf :: "Board \<Rightarrow> int \<Rightarrow> int \<Rightarrow> GoColor \<Rightarrow> PointState list" where
  "friendlyNeighborsOf b i j player =
     filter (\<lambda>neighbor. color neighbor = player)
       (getArrayFromNeighbor (findAdjacentLibertiesAndAlliesForPoint b i j (Some player)))"

definition findMaxLibertyCountOfAdjacentChains :: "BoardState \<Rightarrow> int \<Rightarrow> int \<Rightarrow> GoColor \<Rightarrow> int" where
  "findMaxLibertyCountOfAdjacentChains boardState i j player =
     foldl (\<lambda>m neighbor. max m (case libertiesLength neighbor of Some n \<Rightarrow> n | None \<Rightarrow> 0)) 0
       (friendlyNeighborsOf (board boardState) i j player)"

definition findEnemyNeighborChainWithFewestLiberties ::
  "Board \<Rightarrow> int \<Rightarrow> int \<Rightarrow> GoColor \<Rightarrow> PointState list option" where
  "findEnemyNeighborChainWithFewestLiberties b i j player =
     (let chainList = getAllChains b;
          friendlyNeighbors = friendlyNeighborsOf b i j player;
          minimumLiberties =
            foldl (\<lambda>m neighbor. min m (case libertiesLength neighbor of Some n \<Rightarrow> n | None \<Rightarrow> 0))
              (case friendlyNeighbors of
                 [] \<Rightarrow> 99
               | n # _ \<Rightarrow> (case libertiesLength n of Some l \<Rightarrow> l | None \<Rightarrow> 99))
              friendlyNeighbors;
          chainId = map_option chain
                      (find (\<lambda>neighbor. libertiesLength neighbor = Some minimumLiberties) friendlyNeighbors)
      in find (\<lambda>c. Some (chain (hd c)) = chainId) chainList)"

text \<open>\<open>chain?.[0]?.liberties?.length ?? 99\<close>.\<close>

definition fewestLiberties :: "PointState list option \<Rightarrow> int" where
  "fewestLiberties c =
     (case c of
        Some (p # _) \<Rightarrow> (case libertiesLength p of Some n \<Rightarrow> n | None \<Rightarrow> 99)
      | _ \<Rightarrow> 99)"

definition findMinLibertyCountOfAdjacentChains :: "Board \<Rightarrow> int \<Rightarrow> int \<Rightarrow> GoColor \<Rightarrow> int" where
  "findMinLibertyCountOfAdjacentChains b i j player =
     fewestLiberties (findEnemyNeighborChainWithFewestLiberties b i j player)"

text \<open>A string is truthy when it is not empty; \<open>undefined\<close> is falsy.\<close>

definition truthyString :: "string option \<Rightarrow> bool" where
  "truthyString s = (case s of None \<Rightarrow> False | Some t \<Rightarrow> t \<noteq> [])"

text \<open>
  The early returns of the \<open>if (shortcut)\<close> block of \<open>evaluateIfMoveIsValid\<close>, for an empty
  point and a player whose turn it is; \<open>None\<close> when the block returns nothing.
  \<open>possibleRepeat\<close> is the truthiness of the string that \<open>find\<close> returns.
\<close>

definition possibleRepeat :: "BoardState \<Rightarrow> int \<Rightarrow> int \<Rightarrow> GoColor \<Rightarrow> bool" where
  "possibleRepeat boardState i j player =
     truthyString (find (\<lambda>prev. getColorOnBoardString prev i j = Some player) (previousBoards boardState))"

definition fastPath :: "BoardState \<Rightarrow> int \<Rightarrow> int \<Rightarrow> GoColor \<Rightarrow> GoValidity option" where
  "fastPath boardState i j player =
     (let liberties = findAdjacentLibertiesForPoint (board boardState) i j;
          hasLiberty = (north liberties \<noteq> None \<or> east liberties \<noteq> None
                          \<or> south liberties \<noteq> None \<or> west liberties \<noteq> None);
          neighborChainLibertyCount = findMaxLibertyCountOfAdjacentChains boardState i j player;
          potentialCaptureChainLibertyCount =
            findMinLibertyCountOfAdjacentChains (board boardState) i j
              (if player = Black then White else Black)
      in if \<not> possibleRepeat boardState i j player \<and> hasLiberty then Some valid
         else if \<not> possibleRepeat boardState i j player \<and> neighborChainLibertyCount > 1 then Some valid
         else if \<not> possibleRepeat boardState i j player \<and> potentialCaptureChainLibertyCount < 2
         then Some valid
         else if \<not> hasLiberty \<and> potentialCaptureChainLibertyCount \<ge> 2 \<and> neighborChainLibertyCount \<le> 1
         then Some noSuicide
         else None)"

definition evaluateIfMoveIsValid :: "BoardState \<Rightarrow> int \<Rightarrow> int \<Rightarrow> GoColor \<Rightarrow> bool \<Rightarrow> GoValidity" where
  "evaluateIfMoveIsValid boardState i j player shortcut =
     (case previousPlayer boardState of
        None \<Rightarrow> gameOver
      | Some previous \<Rightarrow>
          if previous = player then notYourTurn
          else (case getPoint (board boardState) i j of
                  None \<Rightarrow> pointBroken
                | Some p \<Rightarrow>
                    if color p \<noteq> Empty then pointNotEmpty
                    else (case (if shortcut then fastPath boardState i j player else None) of
                            Some early \<Rightarrow> early
                          | None \<Rightarrow>
                              let evaluationBoard =
                                    evaluateMoveResultBoard (board boardState) i j player True
                              in if map_option color (getPoint evaluationBoard i j) \<noteq> Some player
                                 then noSuicide
                                 else if possibleRepeat boardState i j player
                                           \<and> previousBoards boardState \<noteq> []
                                           \<and> boardStringFromBoard evaluationBoard
                                                 \<in> set (previousBoards boardState)
                                 then boardRepeated
                                 else valid)))"

definition boardStateFromSimpleBoard :: "SimpleBoard \<Rightarrow> GoOpponent \<Rightarrow> BoardState" where
  "boardStateFromSimpleBoard simpleBoard opponent =
     \<lparr>board = updateChains True (boardFromSimpleBoard simpleBoard),
      previousPlayer = Some Empty, previousBoards = [], ai = opponent,
      passCount = 0, cheatCount = 0, cheatCountForWhite = 0\<rparr>"

section \<open>Example positions\<close>

text \<open>A position in which Black's move at \<open>(1, 1)\<close> is suicide, with the position itself recorded.\<close>

definition suicideState :: BoardState where
  "suicideState =
     (boardStateFromSimpleBoard [''.O.'', ''O.O'', ''.O.''] Illuminati)
       \<lparr>previousPlayer := Some White, previousBoards := [''.O.O.O.O.'']\<rparr>"

text \<open>A ko: Black retakes at \<open>(2, 1)\<close>, which recreates the recorded position.\<close>

definition koState :: BoardState where
  "koState =
     (boardStateFromSimpleBoard [''.X..'', ''XOX.'', ''O.O.'', ''.O..''] Illuminati)
       \<lparr>previousPlayer := Some White, previousBoards := [''.X..X.X.OXO..O..'']\<rparr>"

text \<open>What no update of the chain analysis touches: the colour and the coordinates of a cell.\<close>

definition stone :: "Board \<Rightarrow> int \<Rightarrow> int \<Rightarrow> (GoColor \<times> int \<times> int) option option" where
  "stone b i j = map_option (map_option (\<lambda>p. (color p, px p, py p))) (getCell b i j)"

text \<open>
  The invariant of the data model: every point carries the coordinates of the cell that
  holds it. \<open>boardFromSimpleBoard\<close> establishes it and the chain analysis keeps it.
\<close>

definition validBoard :: "Board \<Rightarrow> bool" where
  "validBoard b =
     (\<forall>(i, column) \<in> set (enumerate 0 b). \<forall>(j, cell) \<in> set (enumerate 0 column).
        case cell of None \<Rightarrow> True | Some p \<Rightarrow> px p = int i \<and> py p = int j)"

text \<open>The chains of one colour that the chain analysis left without a liberty.\<close>

definition zeroLibertyChains :: "Board \<Rightarrow> GoColor \<Rightarrow> PointState list list" where
  "zeroLibertyChains b playerColor = findCapturedChainOfColor (getAllChains b) playerColor"

text \<open>The entries built so far from the points \<open>S\<close>: one entry for each chain id met.\<close>

definition entriesOf :: "PointState set \<Rightarrow> (string \<times> PointState list) list \<Rightarrow> bool" where
  "entriesOf S entries =
     (distinct (map fst entries)
      \<and> (\<forall>(key, ps) \<in> set entries. ps \<noteq> [] \<and> key \<noteq> [] \<and> (\<forall>q \<in> set ps. chain q = key \<and> q \<in> S))
      \<and> (\<forall>q \<in> S. chain q \<noteq> [] \<longrightarrow> (\<exists>ps. (chain q, ps) \<in> set entries \<and> q \<in> set ps)))"

text \<open>The colour at a cell; \<open>None\<close> where there is no point.\<close>

definition colorAt :: "Board \<Rightarrow> int \<Rightarrow> int \<Rightarrow> GoColor option" where
  "colorAt b i j = map_option color (getPoint b i j)"

text \<open>
  Black has just played at \<open>(2, 1)\<close>: the white stone at \<open>(1, 1)\<close> and the black stone itself
  are both without liberties. The white stone is removed, the black one stays.
\<close>

definition koPlayed :: Board where
  "koPlayed = boardFromSimpleBoard [''.X..'', ''XOX.'', ''OXO.'', ''.O..'']"


section \<open>Connected components of a board\<close>

text \<open>The four cells that \<open>findNeighbors\<close> looks at: north, east, south and west.\<close>

definition orthogonal :: "int \<times> int \<Rightarrow> int \<times> int \<Rightarrow> bool" where
  "orthogonal r r' =
     (r' = (fst r, snd r + 1) \<or> r' = (fst r + 1, snd r) \<or> r' = (fst r, snd r - 1) \<or> r' = (fst r - 1, snd r))"

text \<open>
  One step of a path: between orthogonal cells that both hold a point, of one colour. A cell
  that is absent or outside the board has no colour, so no step enters or leaves it.
\<close>

definition sameColorStep :: "Board \<Rightarrow> int \<times> int \<Rightarrow> int \<times> int \<Rightarrow> bool" where
  "sameColorStep b r r' =
     (orthogonal r r' \<and> colorAt b (fst r) (snd r) \<noteq> None
      \<and> colorAt b (fst r') (snd r') = colorAt b (fst r) (snd r))"

text \<open>Joined by a path of such steps.\<close>

definition connected :: "Board \<Rightarrow> int \<times> int \<Rightarrow> int \<times> int \<Rightarrow> bool" where
  "connected b = rtranclp (sameColorStep b)"

text \<open>The neighbouring points of the colour of a point.\<close>

definition sameNeighbors :: "Board \<Rightarrow> PointState \<Rightarrow> PointState set" where
  "sameNeighbors b a =
     {n \<in> set (getArrayFromNeighbor (findNeighbors b (px a) (py a))). color n = color a}"

text \<open>
  The invariant of the loop of \<open>findAdjacentPointsInChain\<close>, on the triple of the checked
  points, the points found and the points still to visit.
\<close>

definition floodInv ::
  "Board \<Rightarrow> PointState \<Rightarrow> PointState list \<times> PointState list \<times> PointState list \<Rightarrow> bool" where
  "floodInv b p st =
     (case st of (c, a, s) \<Rightarrow>
        (\<forall>q \<in> set a. q \<in> set (allPoints b) \<and> connected b (ref p) (ref q))
        \<and> set s \<subseteq> set a
        \<and> p \<in> set a
        \<and> (\<forall>x \<in> set a. x \<notin> set s \<longrightarrow> sameNeighbors b x \<subseteq> set a)
        \<and> (\<forall>n \<in> set (allPoints b). color n = color p \<longrightarrow> contains c n \<longrightarrow> n \<in> set a))"

text \<open>The same invariant inside the visit of the neighbours \<open>V\<close> of the point \<open>cur\<close>.\<close>

definition visitInv ::
  "Board \<Rightarrow> PointState \<Rightarrow> PointState \<Rightarrow> PointState set
     \<Rightarrow> PointState list \<times> PointState list \<times> PointState list \<Rightarrow> bool" where
  "visitInv b p cur V st =
     (case st of (c, a, s) \<Rightarrow>
        (\<forall>q \<in> set a. q \<in> set (allPoints b) \<and> connected b (ref p) (ref q))
        \<and> set s \<subseteq> set a
        \<and> p \<in> set a
        \<and> (\<forall>x \<in> set a. x \<notin> set s \<longrightarrow> x \<noteq> cur \<longrightarrow> sameNeighbors b x \<subseteq> set a)
        \<and> (\<forall>n \<in> set (allPoints b). color n = color p \<longrightarrow> contains c n \<longrightarrow> n \<in> set a)
        \<and> (\<forall>n \<in> V. color n = color cur \<longrightarrow> n \<in> set a)
        \<and> cur \<in> set a)"

text \<open>What holds of the points found when the loop has ended.\<close>

definition floodFinal :: "Board \<Rightarrow> PointState \<Rightarrow> PointState list \<Rightarrow> bool" where
  "floodFinal b p adj =
     ((\<forall>q \<in> set adj. q \<in> set (allPoints b) \<and> connected b (ref p) (ref q))
      \<and> p \<in> set adj
      \<and> (\<forall>x \<in> set adj. sameNeighbors b x \<subseteq> set adj))"

text \<open>The chain id that \<open>updateChains\<close> derives from a position.\<close>

definition idOfPos :: "int \<times> int \<Rightarrow> string" where
  "idOfPos r = numberToString (fst r) @ '','' @ numberToString (snd r)"

text \<open>The chain id stored at a position.\<close>

definition chainAt :: "Board \<Rightarrow> int \<times> int \<Rightarrow> string option" where
  "chainAt b r = map_option chain (getPoint b (fst r) (snd r))"

text \<open>Reading a decimal rendering back.\<close>

definition digitValue :: "char \<Rightarrow> nat" where
  "digitValue c = of_char c - 48"

definition decodeNat :: "string \<Rightarrow> nat" where
  "decodeNat s = foldl (\<lambda>acc c. 10 * acc + digitValue c) 0 s"

text \<open>The first cell, in the order of the scan, that is connected to a cell.\<close>

definition firstMember :: "Board \<Rightarrow> int \<times> int \<Rightarrow> (int \<times> int) option" where
  "firstMember b r = find (\<lambda>m. connected b m r) (scanOrder b)"

text \<open>
  The invariant of the scan of \<open>updateChains\<close> over the board \<open>b0\<close>, once the cells \<open>ds\<close>
  are done: colours and coordinates are untouched, a labelled point carries the id of the
  first member of its component, every cell done is labelled, and a component is labelled as
  a whole.
\<close>

definition scanInv :: "Board \<Rightarrow> (int \<times> int) list \<Rightarrow> Board \<Rightarrow> bool" where
  "scanInv b0 ds bk =
     ((\<forall>i j. stone bk i j = stone b0 i j)
      \<and> (\<forall>r c. chainAt bk r = Some c \<longrightarrow> c \<noteq> [] \<longrightarrow>
             (\<exists>m \<in> set ds. firstMember b0 r = Some m \<and> c = idOfPos m))
      \<and> (\<forall>r \<in> set ds. chainAt bk r \<noteq> Some [])
      \<and> (\<forall>r r' c. chainAt bk r = Some c \<longrightarrow> c \<noteq> [] \<longrightarrow> connected b0 r r' \<longrightarrow> chainAt bk r' \<noteq> Some []))"

text \<open>The order of the scan: by column, and by row inside a column.\<close>

definition scanBefore :: "int \<times> int \<Rightarrow> int \<times> int \<Rightarrow> bool" where
  "scanBefore r s = (fst r < fst s \<or> (fst r = fst s \<and> snd r < snd s))"

text \<open>
  A board with a black chain of three stones, two white stones that do not touch, and two
  empty regions.
\<close>

definition chainsBoard :: Board where
  "chainsBoard = boardFromSimpleBoard [''XX.'', ''XO.'', ''..O'']"


section \<open>Liberties of a chain\<close>

text \<open>
  A liberty of the chain of the cell \<open>r\<close>: an empty point next to a cell of the chain.
\<close>

definition libertyOf :: "Board \<Rightarrow> int \<times> int \<Rightarrow> int \<times> int \<Rightarrow> bool" where
  "libertyOf b r l =
     (colorAt b (fst l) (snd l) = Some Empty \<and> (\<exists>a. connected b r a \<and> orthogonal a l))"

text \<open>The liberties list stored at a position.\<close>

definition libsAt :: "Board \<Rightarrow> int \<times> int \<Rightarrow> (int \<times> int) list option option" where
  "libsAt b r = map_option liberties (getPoint b (fst r) (snd r))"

text \<open>What \<open>findLibertiesForChain\<close> collects: the liberties outside the chain.\<close>

definition chainLiberties :: "Board \<Rightarrow> int \<times> int \<Rightarrow> (int \<times> int) set" where
  "chainLiberties b r = {l. libertyOf b r l \<and> \<not> connected b r l}"

text \<open>
  The invariant of the scan of \<open>updateChains\<close> for the liberties: a labelled point carries
  the liberties of its chain on the board \<open>b0\<close>.
\<close>

definition libInv :: "Board \<Rightarrow> Board \<Rightarrow> bool" where
  "libInv b0 bk =
     (\<forall>r c. chainAt bk r = Some c \<longrightarrow> c \<noteq> [] \<longrightarrow>
        (\<exists>ls. libsAt bk r = Some (Some ls) \<and> set ls = chainLiberties b0 r))"


section \<open>Pattern matching (src/Go/boardAnalysis/patternMatching.ts)\<close>

definition threeByThreePatterns :: "string list list" where
  "threeByThreePatterns =
     [[''XOX'', ''...'', ''???''],
      [''XO.'', ''...'', ''?.?''],
      [''XO?'', ''X..'', ''o.?''],
      [''.O.'', ''X..'', ''...''],
      [''XO?'', ''O.x'', ''?x?''],
      [''XO?'', ''O.X'', ''???''],
      [''?X?'', ''O.O'', ''xxx''],
      [''OX?'', ''x.O'', ''???''],
      [''X.?'', ''O.?'', ''   ''],
      [''OX?'', ''X.O'', ''   ''],
      [''?X?'', ''o.O'', ''   ''],
      [''?XO'', ''o.o'', ''   ''],
      [''?OX'', ''X.O'', ''   '']]"

text \<open>
  The three functions below are applied to lists of three strings; \<open>rotate90Degrees\<close> only to
  patterns of three strings of three characters, where every index is inside.
\<close>

definition rotate90Degrees :: "string list \<Rightarrow> string list" where
  "rotate90Degrees pattern =
     [[pattern ! 2 ! 0, pattern ! 1 ! 0, pattern ! 0 ! 0],
      [pattern ! 2 ! 1, pattern ! 1 ! 1, pattern ! 0 ! 1],
      [pattern ! 2 ! 2, pattern ! 1 ! 2, pattern ! 0 ! 2]]"

definition verticalMirror :: "string list \<Rightarrow> string list" where
  "verticalMirror pattern = [pattern ! 2, pattern ! 1, pattern ! 0]"

text \<open>\<open>Array.prototype.join()\<close> without an argument separates the elements by a comma.\<close>

fun joinDefault :: "string \<Rightarrow> string" where
  "joinDefault [] = []"
| "joinDefault [c] = [c]"
| "joinDefault (c # cs) = c # CHR '','' # joinDefault cs"

definition horizontalMirror :: "string list \<Rightarrow> string list" where
  "horizontalMirror pattern =
     [joinDefault (rev (pattern ! 0)), joinDefault (rev (pattern ! 1)), joinDefault (rev (pattern ! 2))]"

definition rotatedPatterns :: "string list list" where
  "rotatedPatterns =
     threeByThreePatterns
     @ map rotate90Degrees threeByThreePatterns
     @ map rotate90Degrees (map rotate90Degrees threeByThreePatterns)
     @ map rotate90Degrees (map rotate90Degrees (map rotate90Degrees threeByThreePatterns))"

definition mirroredPatterns :: "string list list" where
  "mirroredPatterns = rotatedPatterns @ map verticalMirror rotatedPatterns"

definition expandAllThreeByThreePatterns :: "string list list" where
  "expandAllThreeByThreePatterns = mirroredPatterns @ map horizontalMirror mirroredPatterns"

text \<open>A cell as \<open>getCell\<close> returns it: \<open>undefined\<close>, \<open>null\<close> or a point.\<close>

definition getNeighborhood :: "Board \<Rightarrow> int \<Rightarrow> int \<Rightarrow> PointState option option list list" where
  "getNeighborhood b i j =
     [[getCell b (i - 1) (j - 1), getCell b (i - 1) j, getCell b (i - 1) (j + 1)],
      [getCell b i (j - 1), getCell b i j, getCell b i (j + 1)],
      [getCell b (i + 1) (j - 1), getCell b (i + 1) j, getCell b (i + 1) (j + 1)]]"

text \<open>\<open>point?.color\<close>: \<open>None\<close> is \<open>undefined\<close>.\<close>

definition colorOf :: "PointState option option \<Rightarrow> GoColor option" where
  "colorOf cell = (case cell of Some (Some p) \<Rightarrow> Some (color p) | _ \<Rightarrow> None)"

text \<open>The result of \<open>matches\<close> is a boolean, or \<open>null\<close> (\<open>None\<close>) for a character outside the \<open>switch\<close>.\<close>

definition matches :: "char \<Rightarrow> PointState option option \<Rightarrow> GoColor \<Rightarrow> bool option" where
  "matches stringPoint cell player =
     (let opponent = (if player = White then Black else White)
      in if stringPoint = CHR ''X'' then Some (colorOf cell = Some player)
         else if stringPoint = CHR ''O'' then Some (colorOf cell = Some opponent)
         else if stringPoint = CHR ''x'' then Some (colorOf cell \<noteq> Some opponent)
         else if stringPoint = CHR ''o'' then Some (colorOf cell \<noteq> Some player)
         else if stringPoint = CHR ''.'' then Some (colorOf cell = Some Empty)
         else if stringPoint = CHR '' '' then Some (cell = Some None)
         else if stringPoint = CHR ''?'' then Some True
         else None)"

text \<open>
  \<open>every\<close> over the characters of the joined pattern; the neighbourhood array read past its
  end is \<open>undefined\<close>, and a \<open>null\<close> result of \<open>matches\<close> is falsy.
\<close>

definition checkMatch :: "PointState option option list list \<Rightarrow> string list \<Rightarrow> GoColor \<Rightarrow> bool" where
  "checkMatch neighborhood pattern player =
     (let patternArr = concat pattern;
          neighborhoodArray = concat neighborhood
      in list_all (\<lambda>(index, str).
                     matches str (case nth_opt neighborhoodArray (int index) of None \<Rightarrow> None | Some c \<Rightarrow> c)
                       player = Some True)
           (enumerate 0 patternArr))"

text \<open>The \<open>patterns.find(...)\<close> of \<open>findAnyMatchedPatterns\<close> at one cell.\<close>

definition matchedPattern :: "Board \<Rightarrow> int \<Rightarrow> int \<Rightarrow> GoColor \<Rightarrow> string list option" where
  "matchedPattern b i j player =
     find (\<lambda>pattern. checkMatch (getNeighborhood b i j) pattern player) expandAllThreeByThreePatterns"

section \<open>Symmetries of a square board\<close>

text \<open>
  A symmetry of the square grid of size \<open>n\<close>, applied to a board: the cell \<open>(i, j)\<close> of the
  result is the cell \<open>src (i, j)\<close> of the board, and a point (and every reference in its
  liberties) gets the coordinates \<open>dst\<close> gives it.
\<close>

definition movePoint :: "(int \<times> int \<Rightarrow> int \<times> int) \<Rightarrow> PointState \<Rightarrow> PointState" where
  "movePoint dst p =
     p\<lparr>px := fst (dst (px p, py p)), py := snd (dst (px p, py p)),
       liberties := map_option (map dst) (liberties p)\<rparr>"

definition transformBoard ::
  "nat \<Rightarrow> (int \<times> int \<Rightarrow> int \<times> int) \<Rightarrow> (int \<times> int \<Rightarrow> int \<times> int) \<Rightarrow> Board \<Rightarrow> Board" where
  "transformBoard n src dst b =
     map (\<lambda>i. map (\<lambda>j. case getCell b (fst (src (int i, int j))) (snd (src (int i, int j))) of
                          Some cell \<Rightarrow> map_option (movePoint dst) cell
                        | None \<Rightarrow> None)
                [0..<n])
       [0..<n]"

text \<open>A quarter turn: the point at \<open>(x, y)\<close> goes to \<open>(y, n - 1 - x)\<close>.\<close>

definition rotateBoard :: "Board \<Rightarrow> Board" where
  "rotateBoard b =
     (let n = length b
      in transformBoard n (\<lambda>(i, j). (int n - 1 - j, i)) (\<lambda>(i, j). (j, int n - 1 - i)) b)"

text \<open>The mirror image that reverses the order of the columns: \<open>(x, y)\<close> goes to \<open>(n - 1 - x, y)\<close>.\<close>

definition mirrorColumns :: "Board \<Rightarrow> Board" where
  "mirrorColumns b =
     (let n = length b
      in transformBoard n (\<lambda>(i, j). (int n - 1 - i, j)) (\<lambda>(i, j). (int n - 1 - i, j)) b)"

text \<open>The mirror image that reverses every column: \<open>(x, y)\<close> goes to \<open>(x, n - 1 - y)\<close>.\<close>

definition mirrorRows :: "Board \<Rightarrow> Board" where
  "mirrorRows b =
     (let n = length b
      in transformBoard n (\<lambda>(i, j). (i, int n - 1 - j)) (\<lambda>(i, j). (i, int n - 1 - j)) b)"

text \<open>The verdict of the pattern matcher at a cell: some pattern of the expanded catalog matches.\<close>

definition patternMatchesAt :: "Board \<Rightarrow> int \<Rightarrow> int \<Rightarrow> GoColor \<Rightarrow> bool" where
  "patternMatchesAt b i j player = (matchedPattern b i j player \<noteq> None)"


text \<open>What \<open>matches\<close> can see of a cell: outside the grid, offline, or a colour.\<close>

definition cellKind :: "PointState option option \<Rightarrow> GoColor option option" where
  "cellKind cell = map_option (map_option color) cell"

text \<open>A pattern of three rows of three characters.\<close>

definition threeByThree :: "string list \<Rightarrow> bool" where
  "threeByThree p = (length p = 3 \<and> list_all (\<lambda>row. length row = 3) p)"

text \<open>The coordinates of the cells of a square grid of size \<open>n\<close>.\<close>

definition inGrid :: "nat \<Rightarrow> int \<times> int \<Rightarrow> bool" where
  "inGrid n pos = (0 \<le> fst pos \<and> fst pos < int n \<and> 0 \<le> snd pos \<and> snd pos < int n)"


section \<open>Eyes and territory (src/Go/boardAnalysis/boardAnalysis.ts)\<close>

text \<open>Sequencing of computations that may throw: the first exception ends the computation.\<close>

definition bindE :: "JsError + 'a \<Rightarrow> ('a \<Rightarrow> JsError + 'b) \<Rightarrow> JsError + 'b" where
  "bindE m f = (case m of Inl e \<Rightarrow> Inl e | Inr v \<Rightarrow> f v)"

text \<open>\<open>Array.prototype.map\<close>, \<open>filter\<close> (with the index) with a callback that may throw.\<close>

fun mapE :: "('a \<Rightarrow> JsError + 'b) \<Rightarrow> 'a list \<Rightarrow> JsError + 'b list" where
  "mapE f [] = Inr []"
| "mapE f (v # vs) = bindE (f v) (\<lambda>w. bindE (mapE f vs) (\<lambda>ws. Inr (w # ws)))"

definition filterE :: "(nat \<Rightarrow> 'a \<Rightarrow> JsError + bool) \<Rightarrow> 'a list \<Rightarrow> JsError + 'a list" where
  "filterE f vs =
     bindE (mapE (\<lambda>(index, v). bindE (f index v) (\<lambda>keep. Inr (keep, v))) (enumerate 0 vs))
       (\<lambda>marked. Inr (map snd (filter fst marked)))"

definition getEmptySpaces :: "Board \<Rightarrow> PointState list" where
  "getEmptySpaces b = filter (\<lambda>p. color p = Empty) (allPoints b)"

definition getAllValidMoves :: "BoardState \<Rightarrow> GoColor \<Rightarrow> PointState list" where
  "getAllValidMoves boardState player =
     filter (\<lambda>p. evaluateIfMoveIsValid boardState (px p) (py p) player True = valid)
       (getEmptySpaces (board boardState))"

definition getPlayerNeighbors :: "Board \<Rightarrow> PointState list \<Rightarrow> PointState list" where
  "getPlayerNeighbors b c = filter (\<lambda>neighbor. color neighbor \<noteq> Empty) (getAllNeighbors b c)"

text \<open>
  A \<open>Set\<close> of chain arrays: a chain found in \<open>allChains\<close> is the same array object every time
  it is found, while \<open>|| []\<close> makes a new empty array each time, which is always added.
\<close>

definition getAllNeighboringChains ::
  "Board \<Rightarrow> PointState list \<Rightarrow> PointState list list \<Rightarrow> PointState list list" where
  "getAllNeighboringChains b c allChains =
     foldl (\<lambda>neighborChains neighbor.
              case find (\<lambda>c'. chain (hd c') = chain neighbor) allChains of
                Some found \<Rightarrow> setAdd neighborChains found
              | None \<Rightarrow> neighborChains @ [[]])
       [] (getPlayerNeighbors b c)"

text \<open>\<open>neighborChain[0]?.color\<close>.\<close>

definition firstColor :: "PointState list \<Rightarrow> GoColor option" where
  "firstColor c = (case c of [] \<Rightarrow> None | p # _ \<Rightarrow> Some (color p))"

record EyeCandidate =
  eyeNeighbors :: "PointState list list"
  eyeChain :: "PointState list"
  eyeId :: string

text \<open>
  \<open>chain.length <= Math.min(nodeCount * 0.4, 11)\<close>. A length is an integer, so the comparison
  with \<open>nodeCount * 0.4\<close> is the comparison of \<open>5 * length\<close> with \<open>2 * nodeCount\<close>; the rounding
  of the floating-point product does not change it.
\<close>

definition withinMaxSize :: "nat \<Rightarrow> nat \<Rightarrow> bool" where
  "withinMaxSize len nodeCount = (5 * len \<le> 2 * nodeCount \<and> len \<le> 11)"

text \<open>The optional argument \<open>_maxSize\<close> (here \<open>maxSizeArg\<close>) is \<open>None\<close> when it is left out.\<close>

definition getAllPotentialEyes ::
  "Board \<Rightarrow> PointState list list \<Rightarrow> GoColor \<Rightarrow> nat option \<Rightarrow> EyeCandidate list" where
  "getAllPotentialEyes b allChains player maxSizeArg =
     (let nodeCount = length (allPoints b);
          emptyPointChains = filter (\<lambda>c. color (hd c) = Empty) allChains;
          small = filter (\<lambda>c. case maxSizeArg of
                                  Some maxSize \<Rightarrow> length c \<le> maxSize
                                | None \<Rightarrow> withinMaxSize (length c) nodeCount) emptyPointChains
      in concat (map (\<lambda>c.
           let neighboringChains = getAllNeighboringChains b c allChains;
               hasWhitePieceNeighbor = (\<exists>neighborChain \<in> set neighboringChains. firstColor neighborChain = Some White);
               hasBlackPieceNeighbor = (\<exists>neighborChain \<in> set neighboringChains. firstColor neighborChain = Some Black)
           in if (hasWhitePieceNeighbor \<and> \<not> hasBlackPieceNeighbor \<and> player = White)
                  \<or> (\<not> hasWhitePieceNeighbor \<and> hasBlackPieceNeighbor \<and> player = Black)
              then [\<lparr>eyeNeighbors = neighboringChains, eyeChain = c, eyeId = chain (hd c)\<rparr>]
              else []) small))"

record Spread =
  spreadNorth :: int
  spreadEast :: int
  spreadSouth :: int
  spreadWest :: int

text \<open>\<open>chain[0].y\<close> throws for an empty chain.\<close>

definition findFurthestPointsOfChain :: "PointState list \<Rightarrow> JsError + Spread" where
  "findFurthestPointsOfChain c =
     (case c of
        [] \<Rightarrow> Inl TypeError
      | p0 # _ \<Rightarrow>
          Inr (foldl (\<lambda>directions p.
                  directions\<lparr>spreadNorth := (if py p > spreadNorth directions then py p else spreadNorth directions),
                              spreadSouth := (if py p < spreadSouth directions then py p else spreadSouth directions),
                              spreadEast := (if px p > spreadEast directions then px p else spreadEast directions),
                              spreadWest := (if px p < spreadWest directions then px p else spreadWest directions)\<rparr>)
                \<lparr>spreadNorth = py p0, spreadEast = px p0, spreadSouth = py p0, spreadWest = px p0\<rparr> c))"

definition removePointAtIndex :: "'a list \<Rightarrow> nat \<Rightarrow> 'a list" where
  "removePointAtIndex arr index = take index arr @ drop (Suc index) arr"

text \<open>\<open>board[0].length\<close> throws for a board without columns.\<close>

definition firstColumnLength :: "Board \<Rightarrow> JsError + int" where
  "firstColumnLength b = (case b of [] \<Rightarrow> Inl TypeError | column # _ \<Rightarrow> Inr (int (length column)))"

definition findNeighboringChainsThatFullyEncircleEmptySpace ::
  "Board \<Rightarrow> PointState list \<Rightarrow> PointState list list \<Rightarrow> PointState list list
     \<Rightarrow> JsError + PointState list list" where
  "findNeighboringChainsThatFullyEncircleEmptySpace b candidateChain neighborChainList allChains =
     bindE (firstColumnLength b) (\<lambda>len.
     let boardMax = len - 1
     in bindE (findFurthestPointsOfChain candidateChain) (\<lambda>candidateSpread.
        filterE (\<lambda>index neighborChain.
          bindE (findFurthestPointsOfChain neighborChain) (\<lambda>neighborSpread.
            let couldWrapNorth =
                  (spreadNorth neighborSpread > spreadNorth candidateSpread
                   \<or> (spreadNorth candidateSpread = boardMax \<and> spreadNorth neighborSpread = boardMax));
                couldWrapEast =
                  (spreadEast neighborSpread > spreadEast candidateSpread
                   \<or> (spreadEast candidateSpread = boardMax \<and> spreadEast neighborSpread = boardMax));
                couldWrapSouth =
                  (spreadSouth neighborSpread < spreadSouth candidateSpread
                   \<or> (spreadSouth candidateSpread = 0 \<and> spreadSouth neighborSpread = 0));
                couldWrapWest =
                  (spreadWest neighborSpread < spreadWest candidateSpread
                   \<or> (spreadWest candidateSpread = 0 \<and> spreadWest neighborSpread = 0))
            in if \<not> couldWrapNorth \<or> \<not> couldWrapEast \<or> \<not> couldWrapSouth \<or> \<not> couldWrapWest
               then Inr False
               else
                 let examplePoint = hd candidateChain;
                     otherChainNeighborPoints = concat (removePointAtIndex neighborChainList index);
                     evaluationBoard =
                       updateChains True
                         (foldl (modifyPoint (\<lambda>pointToEdit. pointToEdit\<lparr>color := Empty\<rparr>)) b
                            (map ref otherChainNeighborPoints));
                     newChains = getAllChains evaluationBoard;
                     newChainID = map_option chain (getPoint evaluationBoard (px examplePoint) (py examplePoint));
                     c = (case find (\<lambda>c'. Some (chain (hd c')) = newChainID) newChains of
                            Some found \<Rightarrow> found
                          | None \<Rightarrow> []);
                     newNeighborChains = getAllNeighboringChains b c allChains
                 in Inr (length newNeighborChains = 1)))
          neighborChainList))"

text \<open>
  The object \<open>eyes\<close>, as the list of its entries in the order of \<open>Object.keys\<close> (the keys are
  chain ids, see \<open>getAllChains\<close>).
\<close>

definition pushEye ::
  "(string \<times> PointState list list) list \<Rightarrow> string \<Rightarrow> PointState list \<Rightarrow> (string \<times> PointState list list) list" where
  "pushEye eyes key eye =
     (if key \<in> fst ` set eyes
      then map (\<lambda>(k, es). if k = key then (k, es @ [eye]) else (k, es)) eyes
      else eyes @ [(key, [eye])])"

text \<open>\<open>neighborChain[0].chain\<close> throws for an empty neighbour chain.\<close>

definition firstChainId :: "PointState list \<Rightarrow> JsError + string" where
  "firstChainId c = (case c of [] \<Rightarrow> Inl TypeError | p # _ \<Rightarrow> Inr (chain p))"

fun foldlE :: "('s \<Rightarrow> 'a \<Rightarrow> JsError + 's) \<Rightarrow> 's \<Rightarrow> 'a list \<Rightarrow> JsError + 's" where
  "foldlE f s [] = Inr s"
| "foldlE f s (v # vs) = bindE (f s v) (\<lambda>s'. foldlE f s' vs)"

definition getAllEyesByChainId :: "Board \<Rightarrow> GoColor \<Rightarrow> JsError + (string \<times> PointState list list) list" where
  "getAllEyesByChainId b player =
     (let allChains = getAllChains b;
          eyeCandidates = getAllPotentialEyes b allChains player None
      in foldlE (\<lambda>eyes candidate.
           if length (eyeNeighbors candidate) = 0 then Inr eyes
           else if length (eyeNeighbors candidate) = 1
           then bindE (firstChainId (hd (eyeNeighbors candidate)))
                  (\<lambda>neighborChainID. Inr (pushEye eyes neighborChainID (eyeChain candidate)))
           else bindE (findNeighboringChainsThatFullyEncircleEmptySpace b (eyeChain candidate)
                         (eyeNeighbors candidate) allChains)
                  (\<lambda>neighborsEncirclingEye.
                     foldlE (\<lambda>eyes' neighborChain.
                               bindE (firstChainId neighborChain)
                                 (\<lambda>neighborChainID. Inr (pushEye eyes' neighborChainID (eyeChain candidate))))
                       eyes neighborsEncirclingEye))
         [] eyeCandidates)"

text \<open>The optional argument \<open>eyesObject\<close> is \<open>None\<close> when it is left out.\<close>

definition getAllEyes ::
  "Board \<Rightarrow> GoColor \<Rightarrow> (string \<times> PointState list list) list option \<Rightarrow> JsError + PointState list list list" where
  "getAllEyes b player eyesObject =
     bindE (case eyesObject of Some eyes \<Rightarrow> Inr eyes | None \<Rightarrow> getAllEyesByChainId b player)
       (\<lambda>eyes. Inr (map snd eyes))"

text \<open>\<open>contains\<close> for a reference to a point.\<close>

definition containsRef :: "PointState list \<Rightarrow> int \<times> int \<Rightarrow> bool" where
  "containsRef arr r = (\<exists>q \<in> set arr. px q = fst r \<and> py q = snd r)"

text \<open>\<open>neighborChain[0].liberties ?? []\<close> throws for an empty neighbour chain.\<close>

definition firstLiberties :: "PointState list \<Rightarrow> JsError + (int \<times> int) list" where
  "firstLiberties c =
     (case c of
        [] \<Rightarrow> Inl TypeError
      | p # _ \<Rightarrow> Inr (case liberties p of None \<Rightarrow> [] | Some ls \<Rightarrow> ls))"

definition findDisputedTerritory :: "BoardState \<Rightarrow> GoColor \<Rightarrow> bool \<Rightarrow> JsError + PointState list" where
  "findDisputedTerritory boardState player excludeFriendlyEyes =
     bindE (if excludeFriendlyEyes
            then bindE (getAllEyes (board boardState) player None)
                   (\<lambda>eyes. let friendlyEyes = concat (concat (filter (\<lambda>eye. length eye \<ge> 2) eyes))
                           in Inr (filter (\<lambda>p. \<not> contains friendlyEyes p)
                                     (getAllValidMoves boardState player)))
            else Inr (getAllValidMoves boardState player))
       (\<lambda>validMoves.
          let opponent = (if player = White then Black else White);
              chainList = getAllChains (board boardState);
              emptySpacesToAnalyze = getAllPotentialEyes (board boardState) chainList opponent None;
              nodesInsideEyeSpacesToAnalyze = concat (map eyeChain emptySpacesToAnalyze)
          in bindE (mapE (\<lambda>space.
                      bindE (mapE (\<lambda>neighborChain.
                               bindE (firstLiberties neighborChain) (\<lambda>libs.
                                 if length libs > 4 then Inr []
                                 else
                                   let neighborChains =
                                         getAllNeighboringChains (board boardState) neighborChain chainList
                                   in if \<not> (\<exists>c \<in> set neighborChains. firstColor c = Some player) then Inr []
                                      else
                                        let libertiesInsideOfSpaceToAnalyze =
                                              filter (\<lambda>r. containsRef (eyeChain space) r) libs
                                        in if length libertiesInsideOfSpaceToAnalyze \<noteq> length libs then Inr []
                                           else Inr libertiesInsideOfSpaceToAnalyze))
                             (eyeNeighbors space))
                        (\<lambda>attackable. Inr (concat attackable)))
                    emptySpacesToAnalyze)
               (\<lambda>playable.
                  let playableNodesInsideOfEnemySpace = concat playable
                  in Inr (filter (\<lambda>move. \<not> contains nodesInsideEyeSpacesToAnalyze move
                                           \<or> ref move \<in> set playableNodesInsideOfEnemySpace)
                            validMoves)))"

section \<open>Move generators (src/Go/boardAnalysis/goAI.ts)\<close>

text \<open>
  The numbers of the source are IEEE 754 doubles. \<open>roundDouble x\<close> is the double nearest to
  the real number \<open>x\<close>, a tie going to the even significand: 53 significant bits, with the
  spacing of the subnormal numbers below the least normal exponent \<open>-1022\<close>. Overflow is left
  out: what is rounded here is a decimal literal below 1, or the product of a random number
  below 1 and the length of an array. A decimal literal \<open>d\<close> of the source denotes
  \<open>roundDouble d\<close>, and the product of two doubles is the rounded product of the reals.

  \<open>binaryExponent x\<close> is the exponent of the leading bit of \<open>x > 0\<close>, found by halving or
  doubling; it is the floor of the binary logarithm (\<open>binaryExponent_log\<close>).
\<close>

function expAbove :: "real \<Rightarrow> int" where
  "expAbove x = (if x < 2 then 0 else expAbove (x / 2) + 1)"
  by pat_completeness auto
termination
proof (relation "measure (\<lambda>x. nat \<lfloor>x\<rfloor>)")
  show "wf (measure (\<lambda>x::real. nat \<lfloor>x\<rfloor>))" by simp
next
  fix x :: real assume "\<not> x < 2"
  then have "\<lfloor>x / 2\<rfloor> < \<lfloor>x\<rfloor>" "0 < \<lfloor>x\<rfloor>" by linarith+
  then show "(x / 2, x) \<in> measure (\<lambda>x. nat \<lfloor>x\<rfloor>)" by simp
qed

declare expAbove.simps [simp del]

lemma ceiling_half_less:
  fixes y :: real
  assumes "1 < y"
  shows "\<lceil>y / 2\<rceil> < \<lceil>y\<rceil>"
proof -
  define c where "c = \<lceil>y\<rceil>"
  from assms have c: "2 \<le> c" unfolding c_def by linarith
  have "y \<le> of_int c" unfolding c_def by (rule le_of_int_ceiling)
  with c have "y / 2 \<le> of_int (c - 1)" by (simp only: of_int_diff of_int_1)
  then have "\<lceil>y / 2\<rceil> \<le> c - 1" by (rule ceiling_le)
  then show ?thesis unfolding c_def by linarith
qed

function expBelow :: "real \<Rightarrow> int" where
  "expBelow x = (if x \<le> 0 \<or> 1 \<le> x then 0 else expBelow (2 * x) - 1)"
  by pat_completeness auto
termination
proof (relation "measure (\<lambda>x. nat \<lceil>1 / x\<rceil>)")
  show "wf (measure (\<lambda>x::real. nat \<lceil>1 / x\<rceil>))" by simp
next
  fix x :: real assume "\<not> (x \<le> 0 \<or> 1 \<le> x)"
  then have x: "0 < x" "x < 1" by simp_all
  then have y: "1 < 1 / x" by simp
  have e: "1 / (2 * x) = 1 / x / 2" by simp
  have "\<lceil>1 / x / 2\<rceil> < \<lceil>1 / x\<rceil>" using y by (rule ceiling_half_less)
  then have "\<lceil>1 / (2 * x)\<rceil> < \<lceil>1 / x\<rceil>" unfolding e .
  moreover have "0 < \<lceil>1 / x\<rceil>" using y by linarith
  ultimately have "nat \<lceil>1 / (2 * x)\<rceil> < nat \<lceil>1 / x\<rceil>" by linarith
  then show "(2 * x, x) \<in> measure (\<lambda>x. nat \<lceil>1 / x\<rceil>)" by (simp only: in_measure)
qed

declare expBelow.simps [simp del]

definition binaryExponent :: "real \<Rightarrow> int" where
  "binaryExponent x = (if 1 \<le> x then expAbove x else expBelow x)"

text \<open>The power of 2 with an integer exponent.\<close>

definition pow2 :: "int \<Rightarrow> real" where
  "pow2 e = (if 0 \<le> e then 2 ^ nat e else 1 / 2 ^ nat (- e))"

definition roundDouble :: "real \<Rightarrow> real" where
  "roundDouble x =
     (if x = 0 then 0
      else let ulp = pow2 (max (binaryExponent \<bar>x\<bar>) (- 1022) - 52);
               q = \<bar>x\<bar> / ulp;
               f = \<lfloor>q\<rfloor>;
               n = (if q - of_int f < 1 / 2 \<or> (q - of_int f = 1 / 2 \<and> even f) then f else f + 1)
           in sgn x * of_int n * ulp)"

definition isSmart :: "GoOpponent \<Rightarrow> real \<Rightarrow> bool" where
  "isSmart faction rng =
     (if faction = Netburners then False
      else if faction = SlumSnakes then rng < roundDouble 0.3
      else if faction = TheBlackHand then rng < roundDouble 0.8
      else True)"

text \<open>\<open>arr[Math.floor(rng * arr.length)]\<close>; the product is a double.\<close>

definition pickRandom :: "'a list \<Rightarrow> real \<Rightarrow> 'a option" where
  "pickRandom arr rng = nth_opt arr \<lfloor>roundDouble (rng * real (length arr))\<rfloor>"

definition getDisputedTerritoryMoves :: "Board \<Rightarrow> PointState list \<Rightarrow> nat \<Rightarrow> PointState list" where
  "getDisputedTerritoryMoves b availableSpaces maxChainSize =
     (let chainList = filter (\<lambda>c. length c \<le> maxChainSize) (getAllChains b)
      in filter (\<lambda>space.
           let c = (case find (\<lambda>c'. chain (hd c') = chain space) chainList of
                      Some found \<Rightarrow> found
                    | None \<Rightarrow> []);
               playerNeighbors = getAllNeighboringChains b c chainList;
               hasWhitePieceNeighbor = (\<exists>neighborChain \<in> set playerNeighbors. firstColor neighborChain = Some White);
               hasBlackPieceNeighbor = (\<exists>neighborChain \<in> set playerNeighbors. firstColor neighborChain = Some Black)
           in hasWhitePieceNeighbor \<and> hasBlackPieceNeighbor) availableSpaces)"

definition getExpansionMoveArray :: "Board \<Rightarrow> PointState list \<Rightarrow> Move list" where
  "getExpansionMoveArray b availableSpaces =
     (let emptySpaces =
            filter (\<lambda>space.
              let neighbors = findNeighbors b (px space) (py space)
              in length (filter (\<lambda>p. case p of Some q \<Rightarrow> color q = Empty | None \<Rightarrow> False)
                           [north neighbors, east neighbors, south neighbors, west neighbors]) = 4)
              availableSpaces;
          disputedSpaces = (if emptySpaces \<noteq> [] then [] else getDisputedTerritoryMoves b availableSpaces 1);
          moveOptions = emptySpaces @ disputedSpaces
      in map (\<lambda>p. \<lparr>point = ref p, oldLibertyCount = Some (- 1), newLibertyCount = Some (- 1),
                     createsLife = None\<rparr>) moveOptions)"

text \<open>
  For a potential move, its liberties if played: the empty neighbours and the liberties of
  the friendly neighbour chains, each once, without the point itself. The result is a list
  of references; its callers read its length.
\<close>

definition findEffectiveLibertiesOfNewMove :: "Board \<Rightarrow> int \<Rightarrow> int \<Rightarrow> GoColor \<Rightarrow> (int \<times> int) list" where
  "findEffectiveLibertiesOfNewMove b i j player =
     (let friendlyChains = filter (\<lambda>c. color (hd c) = player) (getAllChains b);
          neighbors = findAdjacentLibertiesAndAlliesForPoint b i j (Some player);
          neighborPoints = getArrayFromNeighbor neighbors;
          allyNeighbors = filter (\<lambda>neighbor. color neighbor = player) neighborPoints;
          allyNeighborChainLiberties =
            concat (map (\<lambda>neighbor.
                      case find (\<lambda>c. chain (hd c) = chain neighbor) friendlyChains of
                        Some (p # _) \<Rightarrow> (case liberties p of Some ls \<Rightarrow> ls | None \<Rightarrow> [])
                      | _ \<Rightarrow> [])
                    allyNeighbors);
          directLiberties = filter (\<lambda>neighbor. color neighbor = Empty) neighborPoints;
          allLiberties = map ref directLiberties @ allyNeighborChainLiberties
      in filter (\<lambda>liberty. fst liberty \<noteq> i \<or> snd liberty \<noteq> j) (foldl setAdd [] allLiberties))"

text \<open>
  \<open>eyeCreationMoves.sort(...)\<close> orders by \<open>createsLife\<close>, \<open>true\<close> first; the sort is stable.
\<close>

definition sortByCreatesLife :: "Move list \<Rightarrow> Move list" where
  "sortByCreatesLife moves =
     filter (\<lambda>m. createsLife m = Some True) moves @ filter (\<lambda>m. createsLife m \<noteq> Some True) moves"

definition getEyeCreationMoves :: "Board \<Rightarrow> GoColor \<Rightarrow> PointState list \<Rightarrow> nat \<Rightarrow> JsError + Move list" where
  "getEyeCreationMoves b player availableSpaces maxLiberties =
     bindE (getAllEyesByChainId b player) (\<lambda>allEyes.
     bindE (getAllEyes b player (Some allEyes)) (\<lambda>currentEyes.
       let currentLivingGroupIDs = map fst (filter (\<lambda>(chainId, eyes). length eyes \<ge> 2) allEyes);
           currentLivingGroupsCount = length currentLivingGroupIDs;
           currentEyeCount = length (filter (\<lambda>eye. eye \<noteq> []) currentEyes);
           chainList = getAllChains b;
           friendlyLiberties =
             filter (\<lambda>r.
                 let neighbors = findNeighbors b (fst r) (snd r);
                     neighborhood = [north neighbors, east neighbors, south neighbors, west neighbors]
                 in length (filter (\<lambda>p. case p of None \<Rightarrow> True | Some q \<Rightarrow> color q = player) neighborhood) \<ge> 2
                    \<and> (\<exists>p \<in> set neighborhood. map_option color p = Some Empty))
               (filter (\<lambda>r. containsRef availableSpaces r)
                  (concat (map (\<lambda>c. case liberties (hd c) of Some ls \<Rightarrow> ls | None \<Rightarrow> [])
                     (filter (\<lambda>c. chain (hd c) \<notin> set currentLivingGroupIDs)
                        (filter (\<lambda>c. case liberties (hd c) of Some ls \<Rightarrow> length ls \<le> maxLiberties | None \<Rightarrow> False)
                           (filter (\<lambda>c. length c > 1)
                              (filter (\<lambda>c. color (hd c) = player) chainList)))))))
       in bindE (foldlE (\<lambda>moveOptions r.
                   let evaluationBoard = evaluateMoveResultBoard b (fst r) (snd r) player False
                   in bindE (getAllEyes evaluationBoard player None) (\<lambda>newEyes.
                        let newLivingGroupsCount = length (filter (\<lambda>eye. length eye \<ge> 2) newEyes);
                            newEyeCount = length (filter (\<lambda>eye. eye \<noteq> []) newEyes)
                        in if newLivingGroupsCount > currentLivingGroupsCount
                              \<or> (newEyeCount > currentEyeCount \<and> newLivingGroupsCount = currentLivingGroupsCount)
                           then Inr (moveOptions @
                                  [\<lparr>point = r, oldLibertyCount = None, newLibertyCount = None,
                                    createsLife = Some (newLivingGroupsCount > currentLivingGroupsCount)\<rparr>])
                           else Inr moveOptions))
                 [] friendlyLiberties)
            (\<lambda>eyeCreationMoves. Inr (sortByCreatesLife eyeCreationMoves))))"

text \<open>A result \<open>None\<close> is \<open>undefined\<close> or \<open>null\<close>; every caller applies \<open>?? null\<close> or tests truthiness.\<close>

definition getEyeCreationMove :: "Board \<Rightarrow> GoColor \<Rightarrow> PointState list \<Rightarrow> JsError + Move option" where
  "getEyeCreationMove b player availableSpaces =
     bindE (getEyeCreationMoves b player availableSpaces 99) (\<lambda>moves. Inr (nth_opt moves 0))"

definition getEyeBlockingMove :: "Board \<Rightarrow> GoColor \<Rightarrow> PointState list \<Rightarrow> JsError + Move option" where
  "getEyeBlockingMove b player availablePoints =
     (let opposingPlayer = (if player = White then Black else White)
      in bindE (getEyeCreationMoves b opposingPlayer availablePoints 5) (\<lambda>opponentEyeMoves.
           let twoEyeMoves = filter (\<lambda>m. createsLife m = Some True) opponentEyeMoves;
               oneEyeMoves = filter (\<lambda>m. createsLife m \<noteq> Some True) opponentEyeMoves
           in if length twoEyeMoves = 1 then Inr (Some (hd twoEyeMoves))
              else if twoEyeMoves = [] \<and> length oneEyeMoves = 1 then Inr (Some (hd oneEyeMoves))
              else Inr None))"

text \<open>The growth moves carry both liberty counts as numbers.\<close>

record GrowthMove =
  growthPoint :: "int \<times> int"
  growthOld :: int
  growthNew :: int

definition getLibertyGrowthMoves :: "Board \<Rightarrow> GoColor \<Rightarrow> PointState list \<Rightarrow> GrowthMove list" where
  "getLibertyGrowthMoves b player availableSpaces =
     (let friendlyChains = filter (\<lambda>c. color (hd c) = player) (getAllChains b)
      in if friendlyChains = [] then []
         else
           let libs = filter (\<lambda>libertyPoint. containsRef availableSpaces libertyPoint)
                        (concat (map (\<lambda>c. case liberties (hd c) of Some ls \<Rightarrow> ls | None \<Rightarrow> []) friendlyChains))
           in filter (\<lambda>move. growthNew move > 1 \<and> growthNew move \<ge> growthOld move)
                (map (\<lambda>move.
                        \<lparr>growthPoint = move,
                         growthOld = findMinLibertyCountOfAdjacentChains b (fst move) (snd move) player,
                         growthNew = int (length (findEffectiveLibertiesOfNewMove b (fst move) (snd move) player))\<rparr>)
                   libs))"

definition growthToMove :: "GrowthMove \<Rightarrow> Move" where
  "growthToMove g =
     \<lparr>point = growthPoint g, oldLibertyCount = Some (growthOld g), newLibertyCount = Some (growthNew g),
      createsLife = None\<rparr>"

text \<open>\<open>Math.max(...xs)\<close>: \<open>None\<close> is \<open>-Infinity\<close>, the value for an empty list.\<close>

definition mathMax :: "int list \<Rightarrow> int option" where
  "mathMax xs = (case xs of [] \<Rightarrow> None | v # vs \<Rightarrow> Some (foldl max v vs))"

definition getGrowthMove :: "Board \<Rightarrow> GoColor \<Rightarrow> PointState list \<Rightarrow> real \<Rightarrow> Move option" where
  "getGrowthMove b player availableSpaces rng =
     (let growthMoves = getLibertyGrowthMoves b player availableSpaces;
          maxLibertyCount = mathMax (map (\<lambda>l. growthNew l - growthOld l) growthMoves);
          moveCandidates = filter (\<lambda>l. Some (growthNew l - growthOld l) = maxLibertyCount) growthMoves
      in map_option growthToMove (pickRandom moveCandidates rng))"

definition getDefendMove :: "Board \<Rightarrow> GoColor \<Rightarrow> PointState list \<Rightarrow> real \<Rightarrow> Move option" where
  "getDefendMove b player availableSpaces rng =
     (let growthMoves = getLibertyGrowthMoves b player availableSpaces;
          libertyIncreases = filter (\<lambda>move. growthOld move \<le> 1 \<and> growthNew move > growthOld move) growthMoves;
          maxLibertyCount = mathMax (map (\<lambda>l. growthNew l - growthOld l) libertyIncreases)
      in if (case maxLibertyCount of None \<Rightarrow> True | Some m \<Rightarrow> m < 1) then None
         else
           let moveCandidates = filter (\<lambda>l. Some (growthNew l - growthOld l) = maxLibertyCount) libertyIncreases
           in map_option growthToMove (pickRandom moveCandidates rng))"

text \<open>The classification of one enemy liberty in \<open>getSurroundMove\<close>.\<close>

datatype SurroundKind = CaptureMove | AtariMove | SurroundMove

definition surroundKind :: "Board \<Rightarrow> GoColor \<Rightarrow> bool \<Rightarrow> int \<times> int \<Rightarrow> (SurroundKind \<times> Move) option" where
  "surroundKind b player smart move =
     (let newLibertyCount = int (length (findEffectiveLibertiesOfNewMove b (fst move) (snd move) player));
          weakestEnemyChain =
            findEnemyNeighborChainWithFewestLiberties b (fst move) (snd move)
              (if player = Black then White else Black);
          weakestEnemyChainLength = (case weakestEnemyChain of Some c \<Rightarrow> int (length c) | None \<Rightarrow> 99);
          enemyChainLibertyCount = fewestLiberties weakestEnemyChain;
          enemyLibertyGroups =
            foldl setAdd []
              (map (\<lambda>r. case getPoint b (fst r) (snd r) of Some q \<Rightarrow> chain q | None \<Rightarrow> [])
                 (case weakestEnemyChain of
                    Some (p # _) \<Rightarrow> (case liberties p of Some ls \<Rightarrow> ls | None \<Rightarrow> [])
                  | _ \<Rightarrow> []));
          m = \<lparr>point = move, oldLibertyCount = Some enemyChainLibertyCount,
               newLibertyCount = Some (enemyChainLibertyCount - 1), createsLife = None\<rparr>
      in if newLibertyCount \<le> 2 \<and> enemyChainLibertyCount > 2 then None
         else if enemyChainLibertyCount \<le> 1 then Some (CaptureMove, m)
         else if enemyChainLibertyCount = 2
                   \<and> (newLibertyCount \<ge> 2
                        \<or> (length enemyLibertyGroups = 1 \<and> weakestEnemyChainLength > 3) \<or> \<not> smart)
         then Some (AtariMove, m)
         else if newLibertyCount \<ge> 2 then Some (SurroundMove, m)
         else None)"

definition getSurroundMove :: "Board \<Rightarrow> GoColor \<Rightarrow> PointState list \<Rightarrow> bool \<Rightarrow> Move option" where
  "getSurroundMove b player availableSpaces smart =
     (let opposingPlayer = (if player = Black then White else Black);
          enemyChains = filter (\<lambda>c. color (hd c) = opposingPlayer) (getAllChains b)
      in if enemyChains = [] \<or> availableSpaces = [] then None
         else
           let enemyLiberties =
                 filter (\<lambda>liberty. containsRef availableSpaces liberty)
                   (concat (map (\<lambda>c. case liberties (hd c) of Some ls \<Rightarrow> ls | None \<Rightarrow> []) enemyChains));
               classified = filterNotNullish (map (surroundKind b player smart) enemyLiberties);
               captureMoves = map snd (filter (\<lambda>(k, m). k = CaptureMove) classified);
               atariMoves = map snd (filter (\<lambda>(k, m). k = AtariMove) classified);
               surroundMoves = map snd (filter (\<lambda>(k, m). k = SurroundMove) classified)
           in nth_opt (captureMoves @ atariMoves @ surroundMoves) 0)"

definition findLiveNodesInArea :: "Board \<Rightarrow> int \<Rightarrow> int \<Rightarrow> int \<Rightarrow> int \<Rightarrow> PointState list" where
  "findLiveNodesInArea b x1 y1 x2 y2 =
     filter (\<lambda>p. px p \<ge> x1 \<and> px p \<le> x2 \<and> py p \<ge> y1 \<and> py p \<le> y2) (allPoints b)"

definition isCornerAvailableForMove :: "Board \<Rightarrow> int \<Rightarrow> int \<Rightarrow> int \<Rightarrow> int \<Rightarrow> bool" where
  "isCornerAvailableForMove b x1 y1 x2 y2 =
     (let foundPoints = findLiveNodesInArea b x1 y1 x2 y2;
          foundPieces = filter (\<lambda>p. color p \<noteq> Empty) foundPoints
      in if length foundPoints \<ge> 7 then foundPieces = [] else False)"

text \<open>
  \<open>board[i][j]\<close>: throws where the column \<open>board[i]\<close> does not exist; otherwise the point, or
  \<open>None\<close> for \<open>null\<close> and \<open>undefined\<close>.
\<close>

definition readCell :: "Board \<Rightarrow> int \<Rightarrow> int \<Rightarrow> JsError + PointState option" where
  "readCell b i j =
     (case nth_opt b i of
        None \<Rightarrow> Inl TypeError
      | Some column \<Rightarrow> Inr (case nth_opt column j of Some (Some p) \<Rightarrow> Some p | _ \<Rightarrow> None))"

definition getCornerMove :: "Board \<Rightarrow> JsError + PointState option" where
  "getCornerMove b =
     bindE (firstColumnLength b) (\<lambda>len.
       let boardEdge = len - 1;
           cornerMax = boardEdge - 2
       in if isCornerAvailableForMove b cornerMax cornerMax boardEdge boardEdge
          then readCell b cornerMax cornerMax
          else if isCornerAvailableForMove b 0 cornerMax 2 boardEdge
          then readCell b 2 cornerMax
          else if isCornerAvailableForMove b 0 0 2 2
          then readCell b 2 2
          else if isCornerAvailableForMove b cornerMax 0 boardEdge 2
          then readCell b cornerMax 2
          else Inr None)"

text \<open>
  The double loop of \<open>findAnyMatchedPatterns\<close>; \<open>moves\<close> holds what \<open>board[x][y]\<close> gave
  (\<open>None\<close> for \<open>null\<close> and \<open>undefined\<close>), and \<open>|| null\<close> turns a falsy pick into \<open>null\<close>.
\<close>

definition findAnyMatchedPatterns ::
  "Board \<Rightarrow> GoColor \<Rightarrow> PointState list \<Rightarrow> bool \<Rightarrow> real \<Rightarrow> JsError + PointState option" where
  "findAnyMatchedPatterns b player availableSpaces smart rng =
     bindE (firstColumnLength b) (\<lambda>boardSize.
     bindE (foldlE (\<lambda>moves pos.
              if matchedPattern b (fst pos) (snd pos) player \<noteq> None
                 \<and> containsRef availableSpaces pos
                 \<and> (\<not> smart \<or> length (findEffectiveLibertiesOfNewMove b (fst pos) (snd pos) player) > 1)
              then bindE (readCell b (fst pos) (snd pos)) (\<lambda>p. Inr (moves @ [p]))
              else Inr moves)
            [] (concat (map (\<lambda>i. map (\<lambda>j. (int i, int j)) [0..<nat boardSize]) [0..<nat boardSize])))
       (\<lambda>moves. Inr (case pickRandom moves rng of Some (Some p) \<Rightarrow> Some p | _ \<Rightarrow> None)))"

definition getExpansionMove :: "Board \<Rightarrow> PointState list \<Rightarrow> real \<Rightarrow> Move list option \<Rightarrow> Move option" where
  "getExpansionMove b availableSpaces rng moveArray =
     (let moveOptions = (case moveArray of Some arr \<Rightarrow> arr | None \<Rightarrow> getExpansionMoveArray b availableSpaces)
      in pickRandom moveOptions rng)"

definition getJumpMove :: "Board \<Rightarrow> GoColor \<Rightarrow> PointState list \<Rightarrow> real \<Rightarrow> Move list option \<Rightarrow> Move option" where
  "getJumpMove b player availableSpaces rng moveArray =
     (let moveOptions =
            filter (\<lambda>m. \<exists>p \<in> set [getPoint b (fst (point m)) (snd (point m) + 2),
                                      getPoint b (fst (point m) + 2) (snd (point m)),
                                      getPoint b (fst (point m)) (snd (point m) - 2),
                                      getPoint b (fst (point m) - 2) (snd (point m))].
                          map_option color p = Some player)
              (case moveArray of Some arr \<Rightarrow> arr | None \<Rightarrow> getExpansionMoveArray b availableSpaces)
      in pickRandom moveOptions rng)"

text \<open>
  The getters of \<open>getMoveOptions\<close>. A getter is a computation without side effects, so it is
  represented by its outcome: an exception, or a move or \<open>null\<close>. A getter that is not called
  has no effect; the functions that call getters say in which order outcomes are looked at.
\<close>

record MoveOptions =
  eyeMove :: "JsError + Move option"
  random :: "JsError + Move option"
  defendCapture :: "JsError + Move option"
  corner :: "JsError + Move option"
  defend :: "JsError + Move option"
  pattern :: "JsError + Move option"
  capture :: "JsError + Move option"
  growth :: "JsError + Move option"
  eyeBlock :: "JsError + Move option"
  surround :: "JsError + Move option"
  expansion :: "JsError + Move option"
  jump :: "JsError + Move option"

definition pointMove :: "int \<times> int \<Rightarrow> Move" where
  "pointMove r = \<lparr>point = r, oldLibertyCount = None, newLibertyCount = None, createsLife = None\<rparr>"

definition getMoveOptions :: "BoardState \<Rightarrow> GoColor \<Rightarrow> real \<Rightarrow> bool \<Rightarrow> JsError + MoveOptions" where
  "getMoveOptions boardState player rng smart =
     (let b = board boardState
      in bindE (findDisputedTerritory boardState player smart) (\<lambda>availableSpaces.
           let contestedPoints = getDisputedTerritoryMoves b availableSpaces 99;
               expansionMoves = getExpansionMoveArray b availableSpaces;
               endGameAvailable = (contestedPoints = [] \<and> passCount boardState \<noteq> 0);
               surroundGetter = Inr (getSurroundMove b player availableSpaces smart);
               defendGetter = Inr (getDefendMove b player availableSpaces rng)
           in Inr \<lparr>eyeMove = (if endGameAvailable then Inr None else getEyeCreationMove b player availableSpaces),
                   random = Inr (if contestedPoints \<noteq> []
                                 then map_option (\<lambda>p. pointMove (ref p)) (pickRandom availableSpaces rng)
                                 else None),
                   defendCapture =
                     bindE defendGetter (\<lambda>defendMove.
                       Inr (case defendMove of
                              None \<Rightarrow> None
                            | Some m \<Rightarrow>
                                if oldLibertyCount m = Some 1
                                   \<and> (case newLibertyCount m of None \<Rightarrow> False | Some n \<Rightarrow> n \<noteq> 0 \<and> n > 1)
                                then Some m else None)),
                   corner = bindE (getCornerMove b) (\<lambda>p. Inr (map_option (\<lambda>q. pointMove (ref q)) p)),
                   defend = defendGetter,
                   pattern =
                     (if endGameAvailable then Inr None
                      else bindE (findAnyMatchedPatterns b player availableSpaces smart rng)
                             (\<lambda>p. Inr (map_option (\<lambda>q. pointMove (ref q)) p))),
                   capture =
                     bindE surroundGetter (\<lambda>surroundMove.
                       Inr (case surroundMove of
                              None \<Rightarrow> None
                            | Some m \<Rightarrow> if newLibertyCount m = Some 0 then Some m else None)),
                   growth = Inr (if endGameAvailable then None else getGrowthMove b player availableSpaces rng),
                   eyeBlock = (if endGameAvailable then Inr None else getEyeBlockingMove b player availableSpaces),
                   surround = surroundGetter,
                   expansion = Inr (getExpansionMove b availableSpaces rng (Some expansionMoves)),
                   jump = Inr (getJumpMove b player availableSpaces rng (Some expansionMoves))\<rparr>))"

text \<open>\<open>(surround?.newLibertyCount ?? dflt) <= bound\<close>, for a move that is not \<open>null\<close>.\<close>

definition newLibertyAtMost :: "Move \<Rightarrow> int \<Rightarrow> int \<Rightarrow> bool" where
  "newLibertyAtMost m dflt bound = ((case newLibertyCount m of Some n \<Rightarrow> n | None \<Rightarrow> dflt) \<le> bound)"

text \<open>\<open>if (getter()) return getter()?.point ?? null\<close>, else the rest.\<close>

definition orElse ::
  "JsError + Move option \<Rightarrow> (JsError + (int \<times> int) option) \<Rightarrow> JsError + (int \<times> int) option" where
  "orElse getter rest = bindE getter (\<lambda>m. case m of Some mv \<Rightarrow> Inr (Some (point mv)) | None \<Rightarrow> rest)"

definition getIlluminatiPriorityMove :: "MoveOptions \<Rightarrow> real \<Rightarrow> JsError + (int \<times> int) option" where
  "getIlluminatiPriorityMove moves rng =
     orElse (capture moves)
    (orElse (defendCapture moves)
    (orElse (eyeMove moves)
    (bindE (surround moves) (\<lambda>surroundMove.
       if (case surroundMove of Some m \<Rightarrow> newLibertyAtMost m 9 1 | None \<Rightarrow> False)
       then Inr (map_option point surroundMove)
       else
         orElse (eyeBlock moves)
        (orElse (corner moves)
        (bindE (eyeMove moves) (\<lambda>e. bindE (eyeBlock moves) (\<lambda>eb. bindE (growth moves) (\<lambda>g.
         bindE (defend moves) (\<lambda>d.
           let hasMoves = length (filter (\<lambda>m. m \<noteq> None) [e, eb, g, d, surroundMove]);
               usePattern = (rng > roundDouble 0.25 \<or> hasMoves = 0)
           in bindE (pattern moves) (\<lambda>pat.
                if pat \<noteq> None \<and> usePattern then Inr (map_option point pat)
                else
                  bindE (if rng > roundDouble 0.4 then jump moves else Inr None) (\<lambda>j.
                    if j \<noteq> None then Inr (map_option point j)
                    else if rng < roundDouble 0.6 \<and> (case surroundMove of Some m \<Rightarrow> newLibertyAtMost m 9 2 | None \<Rightarrow> False)
                    then Inr (map_option point surroundMove)
                    else Inr None))))))))))))"

definition getNetburnersPriorityMove :: "MoveOptions \<Rightarrow> real \<Rightarrow> JsError + (int \<times> int) option" where
  "getNetburnersPriorityMove moves rng =
     (if rng < roundDouble 0.2 then getIlluminatiPriorityMove moves rng
      else bindE (if rng < roundDouble 0.4 then expansion moves else Inr None) (\<lambda>e.
        if e \<noteq> None then Inr (map_option point e)
        else bindE (if rng < roundDouble 0.6 then growth moves else Inr None) (\<lambda>g.
          if g \<noteq> None then Inr (map_option point g)
          else if rng < roundDouble 0.75 then bindE (random moves) (\<lambda>r. Inr (map_option point r))
          else Inr None)))"

definition getSlumSnakesPriorityMove :: "MoveOptions \<Rightarrow> real \<Rightarrow> JsError + (int \<times> int) option" where
  "getSlumSnakesPriorityMove moves rng =
     orElse (defendCapture moves)
       (if rng < roundDouble 0.2 then getIlluminatiPriorityMove moves rng
        else bindE (if rng < roundDouble 0.6 then growth moves else Inr None) (\<lambda>g.
          if g \<noteq> None then Inr (map_option point g)
          else if rng < roundDouble 0.65 then bindE (random moves) (\<lambda>r. Inr (map_option point r))
          else Inr None))"

definition getBlackHandPriorityMove :: "MoveOptions \<Rightarrow> real \<Rightarrow> JsError + (int \<times> int) option" where
  "getBlackHandPriorityMove moves rng =
     orElse (capture moves)
       (bindE (surround moves) (\<lambda>surroundMove.
          if (case surroundMove of Some m \<Rightarrow> newLibertyAtMost m 999 1 | None \<Rightarrow> False)
          then Inr (map_option point surroundMove)
          else
            orElse (defendCapture moves)
              (if (case surroundMove of Some m \<Rightarrow> newLibertyAtMost m 999 2 | None \<Rightarrow> False)
               then Inr (map_option point surroundMove)
               else if rng < roundDouble 0.3 then getIlluminatiPriorityMove moves rng
               else if rng < roundDouble 0.75 \<and> surroundMove \<noteq> None then Inr (map_option point surroundMove)
               else if rng < roundDouble 0.8 then bindE (random moves) (\<lambda>r. Inr (map_option point r))
               else Inr None)))"

definition getTetradPriorityMove :: "MoveOptions \<Rightarrow> real \<Rightarrow> JsError + (int \<times> int) option" where
  "getTetradPriorityMove moves rng =
     orElse (capture moves)
    (orElse (defendCapture moves)
    (orElse (pattern moves)
    (bindE (surround moves) (\<lambda>surroundMove.
       if (case surroundMove of Some m \<Rightarrow> newLibertyAtMost m 9 1 | None \<Rightarrow> False)
       then Inr (map_option point surroundMove)
       else if rng < roundDouble 0.4 then getIlluminatiPriorityMove moves rng
       else Inr None))))"

definition getDaedalusPriorityMove :: "MoveOptions \<Rightarrow> real \<Rightarrow> JsError + (int \<times> int) option" where
  "getDaedalusPriorityMove moves rng =
     (if rng < roundDouble 0.9 then getIlluminatiPriorityMove moves rng else Inr None)"

definition getFactionMove :: "MoveOptions \<Rightarrow> GoOpponent \<Rightarrow> real \<Rightarrow> JsError + (int \<times> int) option" where
  "getFactionMove moves faction rng =
     (if faction = Netburners then getNetburnersPriorityMove moves rng
      else if faction = SlumSnakes then getSlumSnakesPriorityMove moves rng
      else if faction = TheBlackHand then getBlackHandPriorityMove moves rng
      else if faction = Tetrads then getTetradPriorityMove moves rng
      else if faction = Daedalus then getDaedalusPriorityMove moves rng
      else getIlluminatiPriorityMove moves rng)"

text \<open>
  \<open>getMove\<close>. The random source is the sequence \<open>rng\<close> of the values that the successive calls
  of \<open>rng.random()\<close> return; \<open>waitCycle\<close> only lets time pass. The second \<open>filter\<close> keeps a
  point when the value of \<open>evaluateIfMoveIsValid\<close>, a string of \<open>GoValidity\<close>, is truthy.
\<close>

definition getMove :: "BoardState \<Rightarrow> GoColor \<Rightarrow> GoOpponent \<Rightarrow> (nat \<Rightarrow> real) \<Rightarrow> JsError + Play" where
  "getMove boardState player opponent rng =
     (let smart = isSmart opponent (rng 0)
      in bindE (getMoveOptions boardState player (rng 1) smart) (\<lambda>moves.
         bindE (getFactionMove moves opponent (rng 2)) (\<lambda>priorityMove.
           case priorityMove of
             Some p \<Rightarrow> Inr (MovePlay (fst p) (snd p))
           | None \<Rightarrow>
               bindE (mapE (\<lambda>getter. bindE getter (\<lambda>m. Inr (map_option point m)))
                        [growth moves, surround moves, defend moves, expansion moves, pattern moves,
                         eyeMove moves, eyeBlock moves])
                 (\<lambda>points.
                    let moveOptions =
                          filter (\<lambda>p. validityText (evaluateIfMoveIsValid boardState (fst p) (snd p) player False) \<noteq> [])
                            (filterNotNullish points)
                    in case pickRandom moveOptions (rng 3) of
                         Some chosenMove \<Rightarrow> Inr (MovePlay (fst chosenMove) (snd chosenMove))
                       | None \<Rightarrow> Inr PassPlay))))"

definition get_move :: "SimpleBoard \<Rightarrow> GoOpponent \<Rightarrow> GoColor \<Rightarrow> (nat \<Rightarrow> real) \<Rightarrow> JsError + Play" where
  "get_move simpleBoard opponent player rng =
     getMove (boardStateFromSimpleBoard simpleBoard opponent) player opponent rng"

text \<open>The empty 5x5 board with Black to move.\<close>

definition emptyFive :: BoardState where
  "emptyFive = boardStateFromSimpleBoard [''.....'', ''.....'', ''.....'', ''.....'', ''.....''] Illuminati"


section \<open>Textual round trip\<close>

lemma foldl_snoc_map: "foldl (\<lambda>str p. str @ [f p]) acc xs = acc @ map f xs"
  by (induction xs arbitrary: acc) simp_all

lemma simpleBoardFromBoard_map: "simpleBoardFromBoard b = map (map charFromPoint) b"
  by (simp add: simpleBoardFromBoard_def foldl_snoc_map)

lemma charFromPoint_pointFromChar:
  "ch \<in> {CHR ''X'', CHR ''O'', CHR ''.'', CHR ''#''} \<Longrightarrow> charFromPoint (pointFromChar i j ch) = ch"
  by (auto simp: charFromPoint_def pointFromChar_def blankPointState_def)

lemma mapi_nth_eq:
  assumes "\<And>k. k < length xs \<Longrightarrow> g (f (int k) (xs ! k)) = xs ! k"
  shows "map g (mapi f xs) = xs"
  using assms by (intro nth_equalityI) (simp_all add: mapi_def nth_enumerate_eq)

text \<open>
  C6. For every well-formed SimpleBoard \<open>s\<close> (square, characters among X, O, ., #),
  \<open>simpleBoardFromBoard (boardFromSimpleBoard s)\<close> is \<open>s\<close> exactly.
\<close>

theorem simpleBoard_roundtrip:
  assumes "wellFormedSimpleBoard s"
  shows "simpleBoardFromBoard (boardFromSimpleBoard s) = s"
proof -
  have "map charFromPoint (mapi (\<lambda>j ch. pointFromChar (int k) j ch) (s ! k)) = s ! k"
    if "k < length s" for k
  proof (rule mapi_nth_eq)
    fix l assume "l < length (s ! k)"
    with that assms have "(s ! k) ! l \<in> {CHR ''X'', CHR ''O'', CHR ''.'', CHR ''#''}"
      unfolding wellFormedSimpleBoard_def by (meson nth_mem subsetD)
    then show "charFromPoint (pointFromChar (int k) (int l) (s ! k ! l)) = s ! k ! l"
      by (rule charFromPoint_pointFromChar)
  qed
  then show ?thesis
    unfolding simpleBoardFromBoard_map boardFromSimpleBoard_def by (rule mapi_nth_eq)
qed

theorem simpleBoard_roundtrip_witness:
  "wellFormedSimpleBoard [''XX.'', ''#O.'', ''..O'']
   \<and> simpleBoardFromBoard (boardFromSimpleBoard [''XX.'', ''#O.'', ''..O'']) = [''XX.'', ''#O.'', ''..O'']"
proof -
  have wf: "wellFormedSimpleBoard [''XX.'', ''#O.'', ''..O'']"
    by (simp add: wellFormedSimpleBoard_def)
  show ?thesis using wf simpleBoard_roundtrip [OF wf] by simp
qed

section \<open>Reading a colour back from a board string\<close>

lemma roundSqrtFrom_least:
  "r \<le> m \<Longrightarrow> (\<forall>r'. r \<le> r' \<and> r' < m \<longrightarrow> r' * r' + r' < n) \<Longrightarrow> n \<le> m * m + m
     \<Longrightarrow> m - r \<le> k \<Longrightarrow> roundSqrtFrom k r n = m"
proof (induction k arbitrary: r)
  case 0
  then show ?case by simp
next
  case (Suc k)
  show ?case
  proof (cases "r = m")
    case True
    with Suc.prems show ?thesis by simp
  next
    case False
    with Suc.prems have lt: "r < m" by simp
    with Suc.prems have "r * r + r < n" by blast
    moreover have "roundSqrtFrom k (Suc r) n = m"
      using Suc.prems lt by (intro Suc.IH) auto
    ultimately show ?thesis by simp
  qed
qed

lemma roundSqrt_square: "roundSqrt (n * n) = n"
proof -
  have "\<forall>r'. 0 \<le> r' \<and> r' < n \<longrightarrow> r' * r' + r' < n * n"
  proof (intro allI impI)
    fix r' assume "0 \<le> r' \<and> r' < n"
    then have "Suc r' \<le> n" by simp
    then have "r' * Suc r' \<le> r' * n" by (intro mult_le_mono2)
    also have "\<dots> < n * n" using \<open>0 \<le> r' \<and> r' < n\<close> by (simp add: mult_less_mono1)
    finally show "r' * r' + r' < n * n" by simp
  qed
  moreover have "n - 0 \<le> n * n" by (cases n) simp_all
  ultimately show ?thesis
    unfolding roundSqrt_def by (intro roundSqrtFrom_least) simp_all
qed

lemma roundSqrt_bounds:
  "n \<le> roundSqrt n * roundSqrt n + roundSqrt n
   \<and> (\<forall>r < roundSqrt n. r * r + r < n)"
proof -
  define m where "m = (LEAST m. n \<le> m * m + m)"
  have ex: "n \<le> n * n + n" by simp
  have up: "n \<le> m * m + m" unfolding m_def using ex by (rule LeastI)
  have low: "\<forall>r<m. r * r + r < n"
    unfolding m_def using not_less_Least by (metis not_le)
  have "m \<le> n" unfolding m_def using ex by (rule Least_le)
  then have "roundSqrt n = m"
    unfolding roundSqrt_def using up low by (intro roundSqrtFrom_least) auto
  with up low show ?thesis by simp
qed

lemma roundSqrt_nearest:
  "real (roundSqrt n) - 1 / 2 < sqrt (real n) \<and> sqrt (real n) < real (roundSqrt n) + 1 / 2"
proof -
  define m where "m = roundSqrt n"
  have up: "n \<le> m * m + m" and low: "\<forall>r<m. r * r + r < n"
    using roundSqrt_bounds [of n] by (simp_all add: m_def)
  have "real n < (real m + 1 / 2)\<^sup>2"
  proof -
    have "real n \<le> real (m * m + m)" using up by (simp only: of_nat_le_iff)
    also have "\<dots> < (real m + 1 / 2)\<^sup>2" by (simp add: power2_eq_square algebra_simps)
    finally show ?thesis .
  qed
  then have "sqrt (real n) < real m + 1 / 2"
    by (metis add_nonneg_nonneg of_nat_0_le_iff real_less_lsqrt zero_le_divide_1_iff zero_le_numeral)
  moreover have "real m - 1 / 2 < sqrt (real n)"
  proof (cases m)
    case 0
    have "0 \<le> sqrt (real n)" by simp
    then have "- (1 / 2) < sqrt (real n)" by linarith
    with 0 show ?thesis by simp
  next
    case (Suc r)
    with low have "r * r + r < n" by simp
    then have "r * r + r + 1 \<le> n" by simp
    then have "real (r * r + r + 1) \<le> real n" by (simp only: of_nat_le_iff)
    moreover have "(real r + 1 / 2)\<^sup>2 < real (r * r + r + 1)"
      by (simp add: power2_eq_square algebra_simps)
    ultimately have "(real r + 1 / 2)\<^sup>2 < real n" by linarith
    then have "real r + 1 / 2 < sqrt (real n)"
      by (metis add_nonneg_nonneg of_nat_0_le_iff real_less_rsqrt zero_le_divide_1_iff zero_le_numeral less_eq_real_def real_le_rsqrt not_le real_sqrt_less_iff real_sqrt_abs abs_of_nonneg)
    with Suc show ?thesis by simp
  qed
  ultimately show ?thesis by (simp add: m_def)
qed

lemma concat_nth_uniform:
  "(\<forall>xs \<in> set xss. length xs = n) \<Longrightarrow> i < length xss \<Longrightarrow> j < n
     \<Longrightarrow> concat xss ! (i * n + j) = xss ! i ! j"
proof (induction xss arbitrary: i)
  case Nil
  then show ?case by simp
next
  case (Cons xs xss)
  show ?case
  proof (cases i)
    case 0
    with Cons.prems show ?thesis by (simp add: nth_append)
  next
    case (Suc i')
    with Cons.prems have "concat xss ! (i' * n + j) = xss ! i' ! j"
      by (intro Cons.IH) auto
    with Suc Cons.prems show ?thesis by (simp add: nth_append)
  qed
qed

lemma length_concat_uniform:
  "(\<forall>xs \<in> set xss. length xs = n) \<Longrightarrow> length (concat xss) = length xss * n"
  by (induction xss) simp_all

lemma boardString_nth:
  assumes sq: "squareBoard b n" and i: "i < n" and j: "j < n"
  shows "boardStringFromBoard b ! (i * n + j) = charFromPoint (b ! i ! j)"
    and "length (boardStringFromBoard b) = n * n"
proof -
  let ?rows = "map (map charFromPoint) b"
  have len: "\<forall>xs \<in> set ?rows. length xs = n"
    using sq by (auto simp: squareBoard_def)
  have "concat ?rows ! (i * n + j) = ?rows ! i ! j"
    using len i j sq by (intro concat_nth_uniform) (simp_all add: squareBoard_def)
  also have "\<dots> = charFromPoint (b ! i ! j)"
    using sq i j by (simp add: squareBoard_def)
  finally show "boardStringFromBoard b ! (i * n + j) = charFromPoint (b ! i ! j)"
    by (simp add: boardStringFromBoard_def simpleBoardFromBoard_map)
  show "length (boardStringFromBoard b) = n * n"
    using length_concat_uniform [OF len] sq
    by (simp add: boardStringFromBoard_def simpleBoardFromBoard_map squareBoard_def)
qed

lemma getCell_in_range:
  assumes "squareBoard b n" "i < n" "j < n"
  shows "getCell b (int i) (int j) = Some (b ! i ! j)"
  using assms by (simp add: getCell_def nth_opt_def squareBoard_def)

text \<open>
  C10. On a square board of size \<open>n\<close> and for coordinates inside it,
  \<open>getColorOnBoardString (boardStringFromBoard b) x y\<close> is the colour of \<open>b[x][y]\<close> when
  that point exists and \<open>null\<close> when the cell is an offline node.
\<close>

theorem getColorOnBoardString_boardString:
  assumes sq: "squareBoard b n"
    and i: "0 \<le> i" "i < int n" and j: "0 \<le> j" "j < int n"
  shows "getColorOnBoardString (boardStringFromBoard b) i j =
           (case getCell b i j of Some (Some p) \<Rightarrow> Some (color p) | _ \<Rightarrow> None)"
proof -
  obtain i' j' where ij: "i = int i'" "j = int j'" "i' < n" "j' < n"
    using i j by (metis nat_less_iff nonneg_int_cases of_nat_less_iff)
  have idx: "i * int n + j = int (i' * n + j')" using ij by simp
  have "i' * n + j' < n * n"
  proof -
    have "i' * n + j' < i' * n + n" using ij by simp
    also have "\<dots> = Suc i' * n" by simp
    also have "\<dots> \<le> n * n" using ij by (metis Suc_leI mult_le_mono1)
    finally show ?thesis .
  qed
  then have ch: "nth_opt (boardStringFromBoard b) (i * int n + j) = Some (charFromPoint (b ! i' ! j'))"
    using boardString_nth [OF sq ij(3,4)] by (simp add: nth_opt_def idx del: of_nat_add of_nat_mult)
  have cell: "getCell b i j = Some (b ! i' ! j')"
    using getCell_in_range [OF sq ij(3,4)] ij by simp
  show ?thesis
    unfolding getColorOnBoardString_def Let_def boardString_nth(2) [OF sq ij(3,4)] roundSqrt_square ch cell
    by (cases "b ! i' ! j'"; cases "color (the (b ! i' ! j'))") (simp_all add: charFromPoint_def)
qed

theorem getColorOnBoardString_boardString_witness:
  "squareBoard (boardFromSimpleBoard [''X#'', ''.O'']) 2 \<and>
   getColorOnBoardString (boardStringFromBoard (boardFromSimpleBoard [''X#'', ''.O''])) 0 1 = None \<and>
   getColorOnBoardString (boardStringFromBoard (boardFromSimpleBoard [''X#'', ''.O''])) 1 1 = Some White"
proof -
  let ?b = "boardFromSimpleBoard [''X#'', ''.O'']"
  have b: "?b = [[Some (blankPointState Black 0 0), None],
                 [Some (blankPointState Empty 1 0), Some (blankPointState White 1 1)]]"
    by (simp add: boardFromSimpleBoard_def mapi_def pointFromChar_def)
  have sq: "squareBoard ?b 2" by (simp add: b squareBoard_def)
  show ?thesis
    using sq getColorOnBoardString_boardString [OF sq, of 0 1]
      getColorOnBoardString_boardString [OF sq, of 1 1]
    by (simp add: b getCell_def nth_opt_def blankPointState_def)
qed

section \<open>The input board of \<open>evaluateMoveResult\<close>\<close>

lemma inPlace_other: "k \<noteq> r \<Longrightarrow> inPlace f r h ! k = h ! k"
  by (simp add: inPlace_def)

lemma inPlace_length: "length (inPlace f r h) = length h"
  by (simp add: inPlace_def)

lemma evaluateMoveResult_frame:
  assumes "evaluateMoveResult h boardRef i j player resetChains = (r, h')" and "k < length h"
  shows "h' ! k = h ! k"
proof (cases "getPoint (h ! boardRef) i j")
  case None
  with assms show ?thesis
    by (auto simp: evaluateMoveResult_def getBoardCopy_def nth_append)
next
  case (Some p)
  have ne: "k \<noteq> length h" using assms(2) by simp
  from Some assms(1) show ?thesis
    by (auto simp: evaluateMoveResult_def getBoardCopy_def Let_def inPlace_other [OF ne]
        nth_append assms(2))
qed

text \<open>
  C7. \<open>evaluateMoveResult\<close> leaves its input board as it was before the call: the entry of
  the store that \<open>board\<close> refers to (colours, chain ids and liberty lists) is unchanged.
\<close>

theorem evaluateMoveResult_input_unchanged:
  assumes "boardRef < length h"
  shows "snd (evaluateMoveResult h boardRef i j player resetChains) ! boardRef = h ! boardRef"
  using assms evaluateMoveResult_frame [of h boardRef i j player resetChains] 
  by (cases "evaluateMoveResult h boardRef i j player resetChains") auto

theorem evaluateMoveResult_input_unchanged_witness:
  "0 < length [updateChains True (boardFromSimpleBoard [''.O.'', ''O.O'', ''.O.''])]
   \<and> snd (evaluateMoveResult [updateChains True (boardFromSimpleBoard [''.O.'', ''O.O'', ''.O.''])]
           0 0 0 White False) ! 0
     = updateChains True (boardFromSimpleBoard [''.O.'', ''O.O'', ''.O.''])"
proof -
  have l: "0 < length [updateChains True (boardFromSimpleBoard [''.O.'', ''O.O'', ''.O.''])]" by simp
  show ?thesis using l evaluateMoveResult_input_unchanged [OF l, of 0 0 White False] by simp
qed

text \<open>
  C9. Where \<open>board[x][y]\<close> is \<open>null\<close>, \<open>evaluateMoveResult\<close> returns the reference it was
  given, not the reference of the copy it made, and the board it refers to is unchanged.
\<close>

theorem evaluateMoveResult_absent:
  assumes "boardRef < length h" and "getCell (h ! boardRef) i j = Some None"
  shows "fst (evaluateMoveResult h boardRef i j player resetChains) = boardRef
       \<and> fst (evaluateMoveResult h boardRef i j player resetChains) \<noteq> fst (getBoardCopy h boardRef)
       \<and> snd (evaluateMoveResult h boardRef i j player resetChains) ! boardRef = h ! boardRef"
proof -
  have "getPoint (h ! boardRef) i j = None" using assms(2) by (simp add: getPoint_def)
  then show ?thesis
    using assms(1) by (simp add: evaluateMoveResult_def getBoardCopy_def nth_append)
qed

theorem evaluateMoveResult_absent_witness:
  "0 < length [boardFromSimpleBoard [''X#'', ''.O'']]
   \<and> getCell ([boardFromSimpleBoard [''X#'', ''.O'']] ! 0) 0 1 = Some None
   \<and> fst (evaluateMoveResult [boardFromSimpleBoard [''X#'', ''.O'']] 0 0 1 Black False) = 0"
proof -
  let ?b = "boardFromSimpleBoard [''X#'', ''.O'']"
  have b: "?b = [[Some (blankPointState Black 0 0), None],
                 [Some (blankPointState Empty 1 0), Some (blankPointState White 1 1)]]"
    by (simp add: boardFromSimpleBoard_def mapi_def pointFromChar_def)
  have c: "getCell ([?b] ! 0) 0 1 = Some None" by (simp add: b getCell_def nth_opt_def)
  have l: "0 < length [?b]" by simp
  show ?thesis using l c evaluateMoveResult_absent [OF l c, of Black False] by simp
qed

section \<open>Superko\<close>

lemma fastPath_None_possibleRepeat:
  "fastPath boardState i j player = None \<Longrightarrow> possibleRepeat boardState i j player"
  unfolding fastPath_def Let_def by (auto split: if_splits)

text \<open>
  C3, as the code has it. With \<open>previousPlayer\<close> another colour than the player and an empty
  point \<open>(x, y)\<close>: if playing there recreates an entry of \<open>previousBoards\<close>, the fast path
  returns nothing (neither \<open>valid\<close> nor \<open>noSuicide\<close>) and the stone played is still on the
  board after capture resolution, then \<open>evaluateIfMoveIsValid\<close> returns \<open>boardRepeated\<close>.
\<close>

theorem superko_boardRepeated:
  assumes "previousPlayer boardState = Some previous" and "previous \<noteq> player"
    and "getPoint (board boardState) i j = Some p" and "color p = Empty"
    and "boardStringFromBoard (evaluateMoveResultBoard (board boardState) i j player True)
           \<in> set (previousBoards boardState)"
    and "fastPath boardState i j player = None"
    and "map_option color (getPoint (evaluateMoveResultBoard (board boardState) i j player True) i j)
           = Some player"
  shows "evaluateIfMoveIsValid boardState i j player True = boardRepeated"
proof -
  have "possibleRepeat boardState i j player"
    using assms(6) by (rule fastPath_None_possibleRepeat)
  moreover have "previousBoards boardState \<noteq> []" using assms(5) by auto
  ultimately show ?thesis
    using assms by (simp add: evaluateIfMoveIsValid_def Let_def)
qed

lemma koState_facts:
  "previousPlayer koState = Some White"
  "getPoint (board koState) 2 1
     = Some \<lparr>color = Empty, chain = ''2,1'', liberties = Some [], px = 2, py = 1\<rparr>"
  "boardStringFromBoard (evaluateMoveResultBoard (board koState) 2 1 Black True) = ''.X..X.X.OXO..O..''"
  "previousBoards koState = [''.X..X.X.OXO..O..'']"
  "fastPath koState 2 1 Black = None"
  "map_option color (getPoint (evaluateMoveResultBoard (board koState) 2 1 Black True) 2 1) = Some Black"
  by code_simp+

theorem superko_boardRepeated_witness:
  "previousPlayer koState = Some White \<and> White \<noteq> Black
   \<and> map_option color (getPoint (board koState) 2 1) = Some Empty
   \<and> boardStringFromBoard (evaluateMoveResultBoard (board koState) 2 1 Black True)
        \<in> set (previousBoards koState)
   \<and> fastPath koState 2 1 Black = None
   \<and> map_option color (getPoint (evaluateMoveResultBoard (board koState) 2 1 Black True) 2 1) = Some Black
   \<and> evaluateIfMoveIsValid koState 2 1 Black True = boardRepeated"
proof -
  have "evaluateIfMoveIsValid koState 2 1 Black True = boardRepeated"
    by (rule superko_boardRepeated [where previous = White and p = "\<lparr>color = Empty, chain = ''2,1'', liberties = Some [], px = 2, py = 1\<rparr>"])
       (simp_all add: koState_facts)
  then show ?thesis by (simp add: koState_facts)
qed

lemma suicideState_facts:
  "previousPlayer suicideState = Some White"
  "map_option color (getPoint (board suicideState) 1 1) = Some Empty"
  "boardStringFromBoard (evaluateMoveResultBoard (board suicideState) 1 1 Black True) = ''.O.O.O.O.''"
  "previousBoards suicideState = [''.O.O.O.O.'']"
  "fastPath suicideState 1 1 Black = Some noSuicide"
  "evaluateIfMoveIsValid suicideState 1 1 Black True = noSuicide"
  by code_simp+

text \<open>
  The claim as stated fails where the move is suicide: the board after capture resolution
  is the recorded one and no early \<open>valid\<close> applies, yet the answer is \<open>noSuicide\<close>.
\<close>

theorem superko_counterexample:
  "previousPlayer suicideState = Some White
   \<and> map_option color (getPoint (board suicideState) 1 1) = Some Empty
   \<and> boardStringFromBoard (evaluateMoveResultBoard (board suicideState) 1 1 Black True)
        \<in> set (previousBoards suicideState)
   \<and> fastPath suicideState 1 1 Black \<noteq> Some valid
   \<and> evaluateIfMoveIsValid suicideState 1 1 Black True \<noteq> boardRepeated"
  by (simp add: suicideState_facts)

section \<open>Cells under the in-place updates\<close>

lemma nth_opt_update:
  "nth_opt (xs[k := v]) i = (if i = int k \<and> k < length xs then Some v else nth_opt xs i)"
  by (auto simp: nth_opt_def nth_list_update)

lemma nth_opt_map: "nth_opt (map f xs) i = map_option f (nth_opt xs i)"
  by (auto simp: nth_opt_def)

lemma getCell_modifyPoint:
  "getCell (modifyPoint f b r) i j =
     (if (i, j) = r then map_option (map_option f) (getCell b i j) else getCell b i j)"
proof (cases "getPoint b (fst r) (snd r)")
  case None
  then show ?thesis
    by (cases r) (auto simp: modifyPoint_def getPoint_def split: option.splits)
next
  case (Some p)
  obtain i0 j0 where r: "r = (i0, j0)" by (cases r)
  from Some r obtain column where c: "nth_opt b i0 = Some column" and p: "nth_opt column j0 = Some (Some p)"
    by (auto simp: getPoint_def getCell_def split: option.splits)
  from c have i0: "0 \<le> i0" "nat i0 < length b" "b ! nat i0 = column"
    by (auto simp: nth_opt_def split: if_splits)
  from p have j0: "0 \<le> j0" "nat j0 < length column"
    by (auto simp: nth_opt_def split: if_splits)
  have m: "modifyPoint f b r = b[nat i0 := column[nat j0 := Some (f p)]]"
    using Some r i0 by (simp add: modifyPoint_def)
  show ?thesis
    unfolding m getCell_def nth_opt_update using i0 j0 c p r
    by (auto simp: nth_opt_update split: option.splits)
qed

lemma getCell_foldl_modifyPoint:
  assumes "\<And>p. f (f p) = f p"
  shows "getCell (foldl (modifyPoint f) b rs) i j =
     (if (i, j) \<in> set rs then map_option (map_option f) (getCell b i j) else getCell b i j)"
proof (induction rs arbitrary: b)
  case Nil
  then show ?case by simp
next
  case (Cons r rs)
  have idem: "map_option (map_option f) (map_option (map_option f) c) = map_option (map_option f) c" for c
    by (cases c; simp) (metis assms not_Some_eq option.simps(8,9))
  show ?case
    by (simp add: Cons.IH getCell_modifyPoint idem)
qed

lemma getCell_clearChains:
  "getCell (clearChains b) i j =
     map_option (map_option (\<lambda>p. p\<lparr>chain := [], liberties := None\<rparr>)) (getCell b i j)"
  by (auto simp: getCell_def clearChains_def nth_opt_map split: option.splits)

lemma getCell_resetChainsById:
  "getCell (resetChainsById ids b) i j =
     map_option (map_option (\<lambda>p. if chain p \<in> set ids then p\<lparr>chain := [], liberties := Some []\<rparr> else p))
       (getCell b i j)"
  by (auto simp: getCell_def resetChainsById_def nth_opt_map split: option.splits)

lemma stone_foldl_modifyPoint:
  assumes "\<And>p. color (f p) = color p \<and> px (f p) = px p \<and> py (f p) = py p"
  shows "stone (foldl (modifyPoint f) b rs) i j = stone b i j"
proof (induction rs arbitrary: b)
  case Nil
  then show ?case by simp
next
  case (Cons r rs)
  have "stone (modifyPoint f b r) i j = stone b i j"
    using assms by (cases "getCell b i j" rule: option.exhaust; cases "the (getCell b i j)")
      (auto simp: stone_def getCell_modifyPoint)
  then show ?case by (simp add: Cons.IH)
qed

lemma stone_updateChainsAt: "stone (updateChainsAt b pos) i j = stone b i j"
  unfolding updateChainsAt_def Let_def
  by (auto split: option.splits sum.splits intro!: stone_foldl_modifyPoint)

lemma stone_foldl_updateChainsAt: "stone (foldl updateChainsAt b ps) i j = stone b i j"
  by (induction ps arbitrary: b) (simp_all add: stone_updateChainsAt)

lemma stone_clearChains: "stone (clearChains b) i j = stone b i j"
  by (cases "getCell b i j" rule: option.exhaust; cases "the (getCell b i j)")
    (auto simp: stone_def getCell_clearChains)

lemma stone_updateChains: "stone (updateChains resetChains b) i j = stone b i j"
  by (simp add: updateChains_def Let_def stone_foldl_updateChainsAt stone_clearChains)


lemma getCell_Some_iff:
  "getCell b i j = Some cell \<longleftrightarrow>
     (0 \<le> i \<and> nat i < length b \<and> 0 \<le> j \<and> nat j < length (b ! nat i) \<and> b ! nat i ! nat j = cell)"
  by (auto simp: getCell_def nth_opt_def split: option.splits)

lemma validBoard_iff:
  "validBoard b \<longleftrightarrow> (\<forall>i j p. getCell b i j = Some (Some p) \<longrightarrow> px p = i \<and> py p = j)"
proof
  assume v: "validBoard b"
  show "\<forall>i j p. getCell b i j = Some (Some p) \<longrightarrow> px p = i \<and> py p = j"
  proof (intro allI impI)
    fix i j p assume "getCell b i j = Some (Some p)"
    then have r: "0 \<le> i" "nat i < length b" "0 \<le> j" "nat j < length (b ! nat i)" "b ! nat i ! nat j = Some p"
      by (simp_all add: getCell_Some_iff)
    then have "(nat i, b ! nat i) \<in> set (enumerate 0 b)"
      and "(nat j, Some p) \<in> set (enumerate 0 (b ! nat i))"
      by (auto simp: in_set_enumerate_eq)
    with v have "px p = int (nat i) \<and> py p = int (nat j)"
      unfolding validBoard_def by fastforce
    with r show "px p = i \<and> py p = j" by simp
  qed
next
  assume a: "\<forall>i j p. getCell b i j = Some (Some p) \<longrightarrow> px p = i \<and> py p = j"
  show "validBoard b"
    unfolding validBoard_def
  proof (clarsimp simp: in_set_enumerate_eq split: option.splits)
    fix i j p assume "i < length b" "j < length (b ! i)" "b ! i ! j = Some p"
    then have "getCell b (int i) (int j) = Some (Some p)" by (simp add: getCell_Some_iff)
    with a show "px p = int i \<and> py p = int j" by blast
  qed
qed

lemma validBoard_stone:
  assumes "\<And>i j. stone b' i j = stone b i j" and "validBoard b"
  shows "validBoard b'"
  unfolding validBoard_iff
proof (intro allI impI)
  fix i j p assume c: "getCell b' i j = Some (Some p)"
  then have "stone b i j = Some (Some (color p, px p, py p))"
    using assms(1) [of i j] by (simp add: stone_def)
  then obtain q where "getCell b i j = Some (Some q)" "px q = px p" "py q = py p"
    by (auto simp: stone_def)
  with assms(2) show "px p = i \<and> py p = j" by (auto simp: validBoard_iff)
qed

lemma validBoard_updateChains: "validBoard b \<Longrightarrow> validBoard (updateChains resetChains b)"
  by (rule validBoard_stone [of _ b]) (simp_all add: stone_updateChains)

lemma allPoints_iff: "p \<in> set (allPoints b) \<longleftrightarrow> (\<exists>i j. getCell b i j = Some (Some p))"
proof
  assume "p \<in> set (allPoints b)"
  then obtain column where "column \<in> set b" "Some p \<in> set column"
    by (auto simp: allPoints_def filterNotNullish_set)
  then obtain i j where "i < length b" "b ! i = column" "j < length column" "column ! j = Some p"
    by (metis in_set_conv_nth)
  then have "getCell b (int i) (int j) = Some (Some p)" by (simp add: getCell_Some_iff)
  then show "\<exists>i j. getCell b i j = Some (Some p)" by blast
next
  assume "\<exists>i j. getCell b i j = Some (Some p)"
  then obtain i j where "getCell b i j = Some (Some p)" by blast
  then have "getPoint b i j = Some p" by (simp add: getPoint_def)
  then show "p \<in> set (allPoints b)" by (rule getPoint_allPoints)
qed

lemma validBoard_getPoint:
  "validBoard b \<Longrightarrow> p \<in> set (allPoints b) \<Longrightarrow> getPoint b (px p) (py p) = Some p"
  by (auto simp: allPoints_iff validBoard_iff getPoint_def)

lemma validBoard_ref_inj:
  "validBoard b \<Longrightarrow> p \<in> set (allPoints b) \<Longrightarrow> q \<in> set (allPoints b) \<Longrightarrow> ref p = ref q \<Longrightarrow> p = q"
proof -
  assume v: "validBoard b" and p: "p \<in> set (allPoints b)" and q: "q \<in> set (allPoints b)"
    and r: "ref p = ref q"
  from r have "px p = px q" "py p = py q" by (simp_all add: ref_def)
  then have "getPoint b (px p) (py p) = getPoint b (px q) (py q)" by (simp only:)
  with validBoard_getPoint [OF v p] validBoard_getPoint [OF v q] have "Some p = Some q"
    by (rule_tac trans [OF sym trans]) 
  then show "p = q" by (rule option.inject [THEN iffD1])
qed

section \<open>The chains of \<open>getAllChains\<close>\<close>

lemma entriesOf_addToChains:
  assumes "entriesOf S entries"
  shows "entriesOf (insert p S) (addToChains entries p)"
proof -
  from assms have d0: "distinct (map fst entries)"
    and e0: "\<And>key ps. (key, ps) \<in> set entries \<Longrightarrow> ps \<noteq> [] \<and> key \<noteq> [] \<and> (\<forall>q \<in> set ps. chain q = key \<and> q \<in> S)"
    and f0: "\<And>q. q \<in> S \<Longrightarrow> chain q \<noteq> [] \<Longrightarrow> \<exists>ps. (chain q, ps) \<in> set entries \<and> q \<in> set ps"
    unfolding entriesOf_def by blast+
  show ?thesis
  proof (cases "chain p = []")
    case True
    then have a: "addToChains entries p = entries" by (simp add: addToChains_def)
    have "\<forall>(key, ps) \<in> set entries. ps \<noteq> [] \<and> key \<noteq> [] \<and> (\<forall>q \<in> set ps. chain q = key \<and> q \<in> insert p S)"
      using e0 by blast
    moreover have "\<forall>q \<in> insert p S. chain q \<noteq> [] \<longrightarrow> (\<exists>ps. (chain q, ps) \<in> set entries \<and> q \<in> set ps)"
      using f0 True by blast
    ultimately show ?thesis unfolding a entriesOf_def using d0 by blast
  next
    case False
    note ne = this
    show ?thesis
    proof (cases "chain p \<in> fst ` set entries")
      case False
      then have a: "addToChains entries p = entries @ [(chain p, [p])]"
        using ne by (simp add: addToChains_def)
      have d: "distinct (map fst (entries @ [(chain p, [p])]))" using d0 False by simp
      have e: "\<forall>(key, ps) \<in> set (entries @ [(chain p, [p])]).
                 ps \<noteq> [] \<and> key \<noteq> [] \<and> (\<forall>q \<in> set ps. chain q = key \<and> q \<in> insert p S)"
      proof (clarify)
        fix key ps assume "(key, ps) \<in> set (entries @ [(chain p, [p])])"
        then consider "(key, ps) \<in> set entries" | "key = chain p" "ps = [p]" by auto
        then show "ps \<noteq> [] \<and> key \<noteq> [] \<and> (\<forall>q \<in> set ps. chain q = key \<and> q \<in> insert p S)"
        proof cases
          case 1
          from e0 [OF this] show ?thesis by blast
        next
          case 2
          with ne show ?thesis by simp
        qed
      qed
      have f: "\<forall>q \<in> insert p S. chain q \<noteq> [] \<longrightarrow>
                 (\<exists>ps. (chain q, ps) \<in> set (entries @ [(chain p, [p])]) \<and> q \<in> set ps)"
      proof (intro ballI impI)
        fix q assume q: "q \<in> insert p S" "chain q \<noteq> []"
        show "\<exists>ps. (chain q, ps) \<in> set (entries @ [(chain p, [p])]) \<and> q \<in> set ps"
        proof (cases "q = p")
          case True
          then show ?thesis by (intro exI [of _ "[p]"]) simp
        next
          case False
          with q have "q \<in> S" by simp
          from f0 [OF this q(2)] show ?thesis by auto
        qed
      qed
      show ?thesis unfolding a entriesOf_def using d e f by blast
    next
      case True
      let ?g = "\<lambda>(key, ps). if key = chain p then (key, ps @ [p]) else (key, ps)"
      have keys: "map fst (map ?g entries) = map fst entries"
        by (induction entries) (auto split: prod.splits)
      have a: "addToChains entries p = map ?g entries"
        using ne True by (simp add: addToChains_def)
      have d: "distinct (map fst (map ?g entries))"
        unfolding keys by (rule d0)
      have e: "\<forall>(key, ps) \<in> set (map ?g entries).
                 ps \<noteq> [] \<and> key \<noteq> [] \<and> (\<forall>q \<in> set ps. chain q = key \<and> q \<in> insert p S)"
      proof (clarify)
        fix key ps assume "(key, ps) \<in> set (map ?g entries)"
        then obtain key0 ps0 where o: "(key0, ps0) \<in> set entries" "(key, ps) = ?g (key0, ps0)"
          by auto
        from e0 [OF o(1)] o(2)
        show "ps \<noteq> [] \<and> key \<noteq> [] \<and> (\<forall>q \<in> set ps. chain q = key \<and> q \<in> insert p S)"
          by (auto split: if_splits)
      qed
      have f: "\<forall>q \<in> insert p S. chain q \<noteq> [] \<longrightarrow> (\<exists>ps. (chain q, ps) \<in> set (map ?g entries) \<and> q \<in> set ps)"
      proof (intro ballI impI)
        fix q assume q: "q \<in> insert p S" "chain q \<noteq> []"
        show "\<exists>ps. (chain q, ps) \<in> set (map ?g entries) \<and> q \<in> set ps"
        proof (cases "chain q = chain p")
          case True
          from \<open>chain p \<in> fst ` set entries\<close> obtain ps where ps: "(chain p, ps) \<in> set entries" by auto
          then have m: "(chain p, ps @ [p]) \<in> set (map ?g entries)" by force
          have qq: "q \<in> set (ps @ [p])"
          proof (cases "q = p")
            case True then show ?thesis by simp
          next
            case False
            with q have "q \<in> S" by simp
            from f0 [OF this q(2)] obtain ps' where ps': "(chain q, ps') \<in> set entries" "q \<in> set ps'"
              by blast
            have "ps' = ps"
              using d0 ps ps'(1) True by (metis eq_key_imp_eq_value)
            with ps' show ?thesis by simp
          qed
          from m True have "(chain q, ps @ [p]) \<in> set (map ?g entries)" by (simp only:)
          with qq show ?thesis by blast
        next
          case False
          with q have "q \<in> S" by auto
          from f0 [OF this q(2)] obtain ps' where ps': "(chain q, ps') \<in> set entries" "q \<in> set ps'"
            by blast
          with False have "(chain q, ps') \<in> set (map ?g entries)" by force
          with ps' show ?thesis by blast
        qed
      qed
      show ?thesis unfolding a entriesOf_def using d e f by blast
    qed
  qed
qed

lemma entriesOf_foldl:
  "entriesOf S entries \<Longrightarrow> entriesOf (S \<union> set ps) (foldl addToChains entries ps)"
proof (induction ps arbitrary: S entries)
  case Nil
  then show ?case by simp
next
  case (Cons p ps)
  from Cons.prems have "entriesOf (insert p S) (addToChains entries p)"
    by (rule entriesOf_addToChains)
  from Cons.IH [OF this] show ?case by simp
qed

lemma entriesOf_getAllChains:
  "entriesOf (set (allPoints b)) (foldl addToChains [] (allPoints b))"
  using entriesOf_foldl [of "{}" "[]" "allPoints b"] by (simp add: entriesOf_def)

lemma getAllChains_nonempty: "c \<in> set (getAllChains b) \<Longrightarrow> c \<noteq> []"
  using entriesOf_getAllChains [of b] unfolding entriesOf_def getAllChains_def by fastforce

lemma getAllChains_points:
  "c \<in> set (getAllChains b) \<Longrightarrow> q \<in> set c \<Longrightarrow> q \<in> set (allPoints b) \<and> chain q = chain (hd c) \<and> chain q \<noteq> []"
proof -
  assume c: "c \<in> set (getAllChains b)" and q: "q \<in> set c"
  then obtain key where k: "(key, c) \<in> set (foldl addToChains [] (allPoints b))"
    by (auto simp: getAllChains_def)
  with entriesOf_getAllChains [of b] have *: "c \<noteq> []" "key \<noteq> []" "\<forall>q \<in> set c. chain q = key \<and> q \<in> set (allPoints b)"
    unfolding entriesOf_def by blast+
  then have "chain (hd c) = key" by simp
  with * q show ?thesis by simp
qed

lemma getAllChains_same_id:
  assumes "c \<in> set (getAllChains b)" "c' \<in> set (getAllChains b)" "chain (hd c) = chain (hd c')"
  shows "c = c'"
proof -
  let ?es = "foldl addToChains [] (allPoints b)"
  from assms obtain key key' where k: "(key, c) \<in> set ?es" "(key', c') \<in> set ?es"
    by (auto simp: getAllChains_def)
  with entriesOf_getAllChains [of b] have "chain (hd c) = key" "chain (hd c') = key'" "distinct (map fst ?es)"
    unfolding entriesOf_def by fastforce+
  with k assms(3) show ?thesis by (metis eq_key_imp_eq_value)
qed

lemma getAllChains_disjoint:
  assumes "c \<in> set (getAllChains b)" "c' \<in> set (getAllChains b)" "q \<in> set c" "q \<in> set c'"
  shows "c = c'"
  using assms getAllChains_points [of c b q] getAllChains_points [of c' b q]
  by (intro getAllChains_same_id [of c b c']) simp_all


section \<open>Removing chains\<close>

lemma foldl_captureChain:
  "foldl captureChain b cs =
     foldl (modifyPoint (\<lambda>p. p\<lparr>color := Empty, chain := [], liberties := Some []\<rparr>)) b
       (concat (map (map ref) cs))"
  by (induction cs arbitrary: b) (simp_all add: captureChain_def)

lemma getCell_foldl_captureChain:
  "getCell (foldl captureChain b cs) i j =
     (if \<exists>c \<in> set cs. (i, j) \<in> ref ` set c
      then map_option (map_option (\<lambda>p. p\<lparr>color := Empty, chain := [], liberties := Some []\<rparr>)) (getCell b i j)
      else getCell b i j)"
  unfolding foldl_captureChain
  by (subst getCell_foldl_modifyPoint) auto

lemma colorAt_stone: "colorAt b i j = map_option fst (case stone b i j of Some (Some s) \<Rightarrow> Some s | _ \<Rightarrow> None)"
  by (auto simp: colorAt_def stone_def getPoint_def split: option.splits)

lemma colorAt_updateChains: "colorAt (updateChains resetChains b) i j = colorAt b i j"
  by (simp add: colorAt_stone stone_updateChains)

lemma colorAt_foldl_captureChain:
  "colorAt (foldl captureChain b cs) i j =
     (if \<exists>c \<in> set cs. (i, j) \<in> ref ` set c then map_option (\<lambda>c. Empty) (colorAt b i j) else colorAt b i j)"
  by (cases "getCell b i j" rule: option.exhaust; cases "the (getCell b i j)")
    (simp_all add: colorAt_def getPoint_def getCell_foldl_captureChain)

lemma updateCaptures_enemy:
  assumes "zeroLibertyChains (updateChains True b) (if player = White then Black else White) \<noteq> []"
  shows "updateCaptures player True b =
           updateChains True (foldl captureChain (updateChains True b)
             (zeroLibertyChains (updateChains True b) (if player = White then Black else White)))"
  using assms by (simp add: updateCaptures_def findAllCapturedChains_def zeroLibertyChains_def Let_def)

lemma zeroLibertyChains_subset:
  "c \<in> set (zeroLibertyChains b playerColor) \<Longrightarrow> c \<in> set (getAllChains b) \<and> color (hd c) = playerColor"
  by (simp add: zeroLibertyChains_def findCapturedChainOfColor_def)

lemma length_mapi: "length (mapi f xs) = length xs"
  by (simp add: mapi_def)

lemma nth_mapi: "k < length xs \<Longrightarrow> mapi f xs ! k = f (int k) (xs ! k)"
  by (simp add: mapi_def nth_enumerate_eq)

lemma pointFromChar_coords: "pointFromChar i j ch = Some p \<Longrightarrow> px p = i \<and> py p = j"
  by (auto simp: pointFromChar_def blankPointState_def split: if_splits)

lemma validBoard_boardFromSimpleBoard: "validBoard (boardFromSimpleBoard s)"
  unfolding validBoard_iff
proof (intro allI impI)
  fix i j p assume "getCell (boardFromSimpleBoard s) i j = Some (Some p)"
  then have g: "0 \<le> i" "nat i < length (boardFromSimpleBoard s)" "0 \<le> j"
      "nat j < length (boardFromSimpleBoard s ! nat i)"
      and c: "boardFromSimpleBoard s ! nat i ! nat j = Some p"
    by (simp_all add: getCell_Some_iff)
  from g(2) have i: "nat i < length s" by (simp add: boardFromSimpleBoard_def length_mapi)
  then have col: "boardFromSimpleBoard s ! nat i = mapi (\<lambda>j ch. pointFromChar (int (nat i)) j ch) (s ! nat i)"
    by (simp add: boardFromSimpleBoard_def nth_mapi)
  with g(4) have j: "nat j < length (s ! nat i)" by (simp add: length_mapi)
  from c col j g have "pointFromChar i j (s ! nat i ! nat j) = Some p"
    by (simp add: nth_mapi)
  then show "px p = i \<and> py p = j" by (rule pointFromChar_coords)
qed


section \<open>Symmetry of the pattern matcher\<close>

lemma closure_rotate: "list_all (\<lambda>p. rotate90Degrees p \<in> set mirroredPatterns) mirroredPatterns"
  by code_simp

lemma closure_vertical: "list_all (\<lambda>p. verticalMirror p \<in> set mirroredPatterns) mirroredPatterns"
  by code_simp

lemma closure_rows: "list_all (\<lambda>p. map rev p \<in> set mirroredPatterns) mirroredPatterns"
  by code_simp


lemma matches_cellKind:
  "cellKind c = cellKind c' \<Longrightarrow> matches ch c player = matches ch c' player"
  by (cases c rule: option.exhaust; cases c' rule: option.exhaust;
      cases "the c"; cases "the c'")
     (auto simp: cellKind_def matches_def colorOf_def Let_def)

lemma checkMatch_3x3:
  "checkMatch [[n00, n01, n02], [n10, n11, n12], [n20, n21, n22]] [[a, b, c], [d, e, f], [g, h, k]] player
     = (matches a n00 player = Some True \<and> matches b n01 player = Some True \<and> matches c n02 player = Some True
        \<and> matches d n10 player = Some True \<and> matches e n11 player = Some True \<and> matches f n12 player = Some True
        \<and> matches g n20 player = Some True \<and> matches h n21 player = Some True \<and> matches k n22 player = Some True)"
  by (simp add: checkMatch_def nth_opt_def)

lemma checkMatch_cellKind:
  assumes "cellKind n00 = cellKind m00" "cellKind n01 = cellKind m01" "cellKind n02 = cellKind m02"
    "cellKind n10 = cellKind m10" "cellKind n11 = cellKind m11" "cellKind n12 = cellKind m12"
    "cellKind n20 = cellKind m20" "cellKind n21 = cellKind m21" "cellKind n22 = cellKind m22"
  shows "checkMatch [[n00, n01, n02], [n10, n11, n12], [n20, n21, n22]] [[a, b, c], [d, e, f], [g, h, k]] player
       = checkMatch [[m00, m01, m02], [m10, m11, m12], [m20, m21, m22]] [[a, b, c], [d, e, f], [g, h, k]] player"
  unfolding checkMatch_3x3
  using assms(1) [THEN matches_cellKind] assms(2) [THEN matches_cellKind] assms(3) [THEN matches_cellKind]
    assms(4) [THEN matches_cellKind] assms(5) [THEN matches_cellKind] assms(6) [THEN matches_cellKind]
    assms(7) [THEN matches_cellKind] assms(8) [THEN matches_cellKind] assms(9) [THEN matches_cellKind]
  by (simp only:)

lemma threeByThree_mirroredPatterns: "list_all threeByThree mirroredPatterns"
  by code_simp

lemma length3E:
  assumes "length xs = 3"
  obtains a b c where "xs = [a, b, c]"
  using assms by (cases xs; cases "tl xs"; cases "tl (tl xs)") auto

lemma threeByThreeE:
  assumes "threeByThree p"
  obtains a b c d e f g h k where "p = [[a, b, c], [d, e, f], [g, h, k]]"
proof -
  from assms obtain r0 r1 r2 where p: "p = [r0, r1, r2]"
    unfolding threeByThree_def by (auto elim: length3E)
  with assms have "length r0 = 3" "length r1 = 3" "length r2 = 3"
    by (simp_all add: threeByThree_def)
  then obtain a b c d e f g h k where "r0 = [a, b, c]" "r1 = [d, e, f]" "r2 = [g, h, k]"
    by (metis length3E)
  with p that show thesis by blast
qed

lemma horizontalMirror_never_matches:
  assumes "threeByThree p"
  shows "\<not> checkMatch neighborhood (horizontalMirror p) player"
proof -
  from assms obtain a b c d e f g h k where p: "p = [[a, b, c], [d, e, f], [g, h, k]]"
    by (rule threeByThreeE)
  have "matches (CHR '','') cell player = None" for cell
    by (simp add: matches_def Let_def)
  then show ?thesis
    by (simp add: p horizontalMirror_def checkMatch_def)
qed

lemma patternMatchesAt_iff:
  "patternMatchesAt b i j player \<longleftrightarrow>
     (\<exists>p \<in> set mirroredPatterns. checkMatch (getNeighborhood b i j) p player)"
proof -
  have "\<not> checkMatch (getNeighborhood b i j) (horizontalMirror p) player" if "p \<in> set mirroredPatterns" for p
    using that threeByThree_mirroredPatterns horizontalMirror_never_matches
    by (simp add: list_all_iff)
  then show ?thesis
    unfolding patternMatchesAt_def matchedPattern_def expandAllThreeByThreePatterns_def
    by (auto simp: find_None_iff)
qed

lemma movePoint_color: "color (movePoint dst p) = color p"
  by (simp add: movePoint_def)

lemma getCell_inGrid: "squareBoard b n \<Longrightarrow> getCell b i j \<noteq> None \<longleftrightarrow> inGrid n (i, j)"
  by (auto simp: getCell_def nth_opt_def squareBoard_def inGrid_def split: option.splits)

lemma getCell_tabulate:
  "getCell (map (\<lambda>i. map (\<lambda>j. f i j) [0..<n]) [0..<n]) i j
     = (if inGrid n (i, j) then Some (f (nat i) (nat j)) else None)"
proof (cases "0 \<le> i \<and> i < int n")
  case False
  then show ?thesis by (auto simp: getCell_def nth_opt_def inGrid_def)
next
  case True
  then have i: "nat i < n" by linarith
  have "nth_opt (map (\<lambda>i. map (\<lambda>j. f i j) [0..<n]) [0..<n]) i = Some (map (\<lambda>j. f (nat i) j) [0..<n])"
    using True i by (simp add: nth_opt_def)
  then have "getCell (map (\<lambda>i. map (\<lambda>j. f i j) [0..<n]) [0..<n]) i j
               = nth_opt (map (\<lambda>j. f (nat i) j) [0..<n]) j"
    by (simp add: getCell_def)
  also have "\<dots> = (if 0 \<le> j \<and> j < int n then Some (f (nat i) (nat j)) else None)"
    by (auto simp: nth_opt_def)
  finally show ?thesis using True by (simp add: inGrid_def)
qed

lemma cellKind_transformBoard:
  assumes "squareBoard b n" and "\<And>pos. inGrid n (src pos) \<longleftrightarrow> inGrid n pos"
  shows "cellKind (getCell (transformBoard n src dst b) i j)
       = cellKind (getCell b (fst (src (i, j))) (snd (src (i, j))))"
proof (cases "inGrid n (i, j)")
  case True
  then have "inGrid n (src (i, j))" using assms(2) by simp
  then obtain cell where c: "getCell b (fst (src (i, j))) (snd (src (i, j))) = Some cell"
    using getCell_inGrid [OF assms(1), of "fst (src (i, j))" "snd (src (i, j))"] by auto
  from True have "getCell (transformBoard n src dst b) i j = Some (map_option (movePoint dst) cell)"
    using c unfolding transformBoard_def getCell_tabulate by (simp add: inGrid_def)
  then show ?thesis
    by (cases cell) (simp_all add: c cellKind_def movePoint_color)
next
  case False
  then have "\<not> inGrid n (src (i, j))" using assms(2) by simp
  then have "getCell b (fst (src (i, j))) (snd (src (i, j))) = None"
    using getCell_inGrid [OF assms(1), of "fst (src (i, j))" "snd (src (i, j))"] by auto
  moreover from False have "getCell (transformBoard n src dst b) i j = None"
    unfolding transformBoard_def getCell_tabulate by simp
  ultimately show ?thesis by simp
qed

lemma cellKind_rotateBoard:
  assumes "squareBoard b n"
  shows "cellKind (getCell (rotateBoard b) i j) = cellKind (getCell b (int n - 1 - j) i)"
proof -
  have n: "length b = n" using assms by (simp add: squareBoard_def)
  have "inGrid n ((\<lambda>(i, j). (int n - 1 - j, i)) pos) \<longleftrightarrow> inGrid n pos" for pos
    by (cases pos) (auto simp: inGrid_def)
  from cellKind_transformBoard [OF assms this, of "\<lambda>(i, j). (j, int n - 1 - i)" i j]
  show ?thesis by (simp add: rotateBoard_def Let_def n)
qed

lemma cellKind_mirrorColumns:
  assumes "squareBoard b n"
  shows "cellKind (getCell (mirrorColumns b) i j) = cellKind (getCell b (int n - 1 - i) j)"
proof -
  have n: "length b = n" using assms by (simp add: squareBoard_def)
  have "inGrid n ((\<lambda>(i, j). (int n - 1 - i, j)) pos) \<longleftrightarrow> inGrid n pos" for pos
    by (cases pos) (auto simp: inGrid_def)
  from cellKind_transformBoard [OF assms this, of "\<lambda>(i, j). (int n - 1 - i, j)" i j]
  show ?thesis by (simp add: mirrorColumns_def Let_def n)
qed

lemma cellKind_mirrorRows:
  assumes "squareBoard b n"
  shows "cellKind (getCell (mirrorRows b) i j) = cellKind (getCell b i (int n - 1 - j))"
proof -
  have n: "length b = n" using assms by (simp add: squareBoard_def)
  have "inGrid n ((\<lambda>(i, j). (i, int n - 1 - j)) pos) \<longleftrightarrow> inGrid n pos" for pos
    by (cases pos) (auto simp: inGrid_def)
  from cellKind_transformBoard [OF assms this, of "\<lambda>(i, j). (i, int n - 1 - j)" i j]
  show ?thesis by (simp add: mirrorRows_def Let_def n)
qed


lemma matches_rotateBoard:
  "squareBoard b n \<Longrightarrow>
     matches ch (getCell (rotateBoard b) i j) player = matches ch (getCell b (int n - 1 - j) i) player"
  by (rule matches_cellKind) (rule cellKind_rotateBoard)

lemma matches_mirrorColumns:
  "squareBoard b n \<Longrightarrow>
     matches ch (getCell (mirrorColumns b) i j) player = matches ch (getCell b (int n - 1 - i) j) player"
  by (rule matches_cellKind) (rule cellKind_mirrorColumns)

lemma matches_mirrorRows:
  "squareBoard b n \<Longrightarrow>
     matches ch (getCell (mirrorRows b) i j) player = matches ch (getCell b i (int n - 1 - j)) player"
  by (rule matches_cellKind) (rule cellKind_mirrorRows)

lemma checkMatch_rotate:
  assumes "squareBoard b n" "threeByThree p"
  shows "checkMatch (getNeighborhood (rotateBoard b) j (int n - 1 - i)) (rotate90Degrees p) player
       = checkMatch (getNeighborhood b i j) p player"
proof -
  from assms(2) obtain a0 a1 a2 b0 b1 b2 c0 c1 c2 where p: "p = [[a0, a1, a2], [b0, b1, b2], [c0, c1, c2]]"
    by (rule threeByThreeE)
  have e: "int n - 1 - (int n - 1 - i - 1) = i + 1" "int n - 1 - (int n - 1 - i) = i"
    "int n - 1 - (int n - 1 - i + 1) = i - 1" by simp_all
  show ?thesis
    unfolding p rotate90Degrees_def getNeighborhood_def
    by (simp add: checkMatch_3x3 matches_rotateBoard [OF assms(1)] e add.commute) blast
qed

lemma checkMatch_vertical:
  assumes "squareBoard b n" "threeByThree p"
  shows "checkMatch (getNeighborhood (mirrorColumns b) (int n - 1 - i) j) (verticalMirror p) player
       = checkMatch (getNeighborhood b i j) p player"
proof -
  from assms(2) obtain a0 a1 a2 b0 b1 b2 c0 c1 c2 where p: "p = [[a0, a1, a2], [b0, b1, b2], [c0, c1, c2]]"
    by (rule threeByThreeE)
  have e: "int n - 1 - (int n - 1 - i - 1) = i + 1" "int n - 1 - (int n - 1 - i) = i"
    "int n - 1 - (int n - 1 - i + 1) = i - 1" by simp_all
  show ?thesis
    unfolding p verticalMirror_def getNeighborhood_def
    by (simp add: checkMatch_3x3 matches_mirrorColumns [OF assms(1)] e add.commute) blast
qed

lemma checkMatch_rows:
  assumes "squareBoard b n" "threeByThree p"
  shows "checkMatch (getNeighborhood (mirrorRows b) i (int n - 1 - j)) (map rev p) player
       = checkMatch (getNeighborhood b i j) p player"
proof -
  from assms(2) obtain a0 a1 a2 b0 b1 b2 c0 c1 c2 where p: "p = [[a0, a1, a2], [b0, b1, b2], [c0, c1, c2]]"
    by (rule threeByThreeE)
  have e: "int n - 1 - (int n - 1 - j - 1) = j + 1" "int n - 1 - (int n - 1 - j) = j"
    "int n - 1 - (int n - 1 - j + 1) = j - 1" by simp_all
  show ?thesis
    unfolding p getNeighborhood_def
    by (simp add: checkMatch_3x3 matches_mirrorRows [OF assms(1)] e add.commute) blast
qed

lemma rotate_four: "threeByThree p \<Longrightarrow> rotate90Degrees (rotate90Degrees (rotate90Degrees (rotate90Degrees p))) = p"
  by (erule threeByThreeE) (simp add: rotate90Degrees_def)

lemma vertical_two: "threeByThree p \<Longrightarrow> verticalMirror (verticalMirror p) = p"
  by (erule threeByThreeE) (simp add: verticalMirror_def)

lemma rows_two: "map rev (map rev p) = p"
  by (simp add: comp_def)

lemma catalog:
  assumes "p \<in> set mirroredPatterns"
  shows "threeByThree p" "rotate90Degrees p \<in> set mirroredPatterns"
    "verticalMirror p \<in> set mirroredPatterns" "map rev p \<in> set mirroredPatterns"
  using assms threeByThree_mirroredPatterns closure_rotate closure_vertical closure_rows
  by (simp_all add: list_all_iff)

lemma patternMatchesAt_rotate:
  assumes "squareBoard b n"
  shows "patternMatchesAt (rotateBoard b) j (int n - 1 - i) player = patternMatchesAt b i j player"
  unfolding patternMatchesAt_iff
proof
  assume "\<exists>p \<in> set mirroredPatterns. checkMatch (getNeighborhood (rotateBoard b) j (int n - 1 - i)) p player"
  then obtain p where p: "p \<in> set mirroredPatterns"
    and m: "checkMatch (getNeighborhood (rotateBoard b) j (int n - 1 - i)) p player" by blast
  let ?q = "rotate90Degrees (rotate90Degrees (rotate90Degrees p))"
  have q: "?q \<in> set mirroredPatterns" using p by (intro catalog(2))
  have "rotate90Degrees ?q = p" using catalog(1) [OF p] by (rule rotate_four)
  with m checkMatch_rotate [OF assms catalog(1) [OF q], of j i player]
  have "checkMatch (getNeighborhood b i j) ?q player" by simp
  with q show "\<exists>p \<in> set mirroredPatterns. checkMatch (getNeighborhood b i j) p player" by blast
next
  assume "\<exists>p \<in> set mirroredPatterns. checkMatch (getNeighborhood b i j) p player"
  then obtain p where p: "p \<in> set mirroredPatterns" and m: "checkMatch (getNeighborhood b i j) p player"
    by blast
  with checkMatch_rotate [OF assms catalog(1) [OF p], of j i player] catalog(2) [OF p]
  show "\<exists>p \<in> set mirroredPatterns. checkMatch (getNeighborhood (rotateBoard b) j (int n - 1 - i)) p player"
    by blast
qed

lemma patternMatchesAt_mirrorColumns:
  assumes "squareBoard b n"
  shows "patternMatchesAt (mirrorColumns b) (int n - 1 - i) j player = patternMatchesAt b i j player"
  unfolding patternMatchesAt_iff
proof
  assume "\<exists>p \<in> set mirroredPatterns. checkMatch (getNeighborhood (mirrorColumns b) (int n - 1 - i) j) p player"
  then obtain p where p: "p \<in> set mirroredPatterns"
    and m: "checkMatch (getNeighborhood (mirrorColumns b) (int n - 1 - i) j) p player" by blast
  let ?q = "verticalMirror p"
  have q: "?q \<in> set mirroredPatterns" using p by (rule catalog(3))
  have "verticalMirror ?q = p" using catalog(1) [OF p] by (rule vertical_two)
  with m checkMatch_vertical [OF assms catalog(1) [OF q], of i j player]
  have "checkMatch (getNeighborhood b i j) ?q player" by simp
  with q show "\<exists>p \<in> set mirroredPatterns. checkMatch (getNeighborhood b i j) p player" by blast
next
  assume "\<exists>p \<in> set mirroredPatterns. checkMatch (getNeighborhood b i j) p player"
  then obtain p where p: "p \<in> set mirroredPatterns" and m: "checkMatch (getNeighborhood b i j) p player"
    by blast
  with checkMatch_vertical [OF assms catalog(1) [OF p], of i j player] catalog(3) [OF p]
  show "\<exists>p \<in> set mirroredPatterns. checkMatch (getNeighborhood (mirrorColumns b) (int n - 1 - i) j) p player"
    by blast
qed

lemma patternMatchesAt_mirrorRows:
  assumes "squareBoard b n"
  shows "patternMatchesAt (mirrorRows b) i (int n - 1 - j) player = patternMatchesAt b i j player"
  unfolding patternMatchesAt_iff
proof
  assume "\<exists>p \<in> set mirroredPatterns. checkMatch (getNeighborhood (mirrorRows b) i (int n - 1 - j)) p player"
  then obtain p where p: "p \<in> set mirroredPatterns"
    and m: "checkMatch (getNeighborhood (mirrorRows b) i (int n - 1 - j)) p player" by blast
  let ?q = "map rev p"
  have q: "?q \<in> set mirroredPatterns" using p by (rule catalog(4))
  have "map rev ?q = p" by (rule rows_two)
  with m checkMatch_rows [OF assms catalog(1) [OF q], of i j player]
  have "checkMatch (getNeighborhood b i j) ?q player" by simp
  with q show "\<exists>p \<in> set mirroredPatterns. checkMatch (getNeighborhood b i j) p player" by blast
next
  assume "\<exists>p \<in> set mirroredPatterns. checkMatch (getNeighborhood b i j) p player"
  then obtain p where p: "p \<in> set mirroredPatterns" and m: "checkMatch (getNeighborhood b i j) p player"
    by blast
  with checkMatch_rows [OF assms catalog(1) [OF p], of i j player] catalog(4) [OF p]
  show "\<exists>p \<in> set mirroredPatterns. checkMatch (getNeighborhood (mirrorRows b) i (int n - 1 - j)) p player"
    by blast
qed

lemma patternMatchesAt_expanded:
  "patternMatchesAt b i j player \<longleftrightarrow>
     (\<exists>p \<in> set expandAllThreeByThreePatterns. checkMatch (getNeighborhood b i j) p player)"
  unfolding patternMatchesAt_def matchedPattern_def by (auto simp: find_None_iff)

text \<open>
  C2. On a square board, for every cell and every pattern of the expanded catalog: turning
  the board by a quarter or mirroring it, together with the target coordinates, keeps the
  verdict of the pattern matcher; a pattern that matches at a cell has a pattern of the
  expanded catalog that matches at the image of the cell on the mirrored or turned board.
\<close>

theorem pattern_symmetry:
  assumes "squareBoard b n"
  shows "patternMatchesAt (rotateBoard b) j (int n - 1 - i) player = patternMatchesAt b i j player
       \<and> patternMatchesAt (mirrorColumns b) (int n - 1 - i) j player = patternMatchesAt b i j player
       \<and> patternMatchesAt (mirrorRows b) i (int n - 1 - j) player = patternMatchesAt b i j player
       \<and> (\<forall>p \<in> set expandAllThreeByThreePatterns. checkMatch (getNeighborhood b i j) p player \<longrightarrow>
            (\<exists>q \<in> set expandAllThreeByThreePatterns.
               checkMatch (getNeighborhood (rotateBoard b) j (int n - 1 - i)) q player)
          \<and> (\<exists>q \<in> set expandAllThreeByThreePatterns.
               checkMatch (getNeighborhood (mirrorColumns b) (int n - 1 - i) j) q player)
          \<and> (\<exists>q \<in> set expandAllThreeByThreePatterns.
               checkMatch (getNeighborhood (mirrorRows b) i (int n - 1 - j)) q player))"
proof -
  note r = patternMatchesAt_rotate [OF assms, of j i player]
  note c = patternMatchesAt_mirrorColumns [OF assms, of i j player]
  note w = patternMatchesAt_mirrorRows [OF assms, of i j player]
  have "\<forall>p \<in> set expandAllThreeByThreePatterns. checkMatch (getNeighborhood b i j) p player \<longrightarrow>
            (\<exists>q \<in> set expandAllThreeByThreePatterns.
               checkMatch (getNeighborhood (rotateBoard b) j (int n - 1 - i)) q player)
          \<and> (\<exists>q \<in> set expandAllThreeByThreePatterns.
               checkMatch (getNeighborhood (mirrorColumns b) (int n - 1 - i) j) q player)
          \<and> (\<exists>q \<in> set expandAllThreeByThreePatterns.
               checkMatch (getNeighborhood (mirrorRows b) i (int n - 1 - j)) q player)"
    using r c w unfolding patternMatchesAt_expanded by blast
  with r c w show ?thesis by (intro conjI)
qed


lemma hane_facts:
  "squareBoard (boardFromSimpleBoard [''XOX'', ''...'', ''...'']) 3"
  "patternMatchesAt (boardFromSimpleBoard [''XOX'', ''...'', ''...'']) 1 1 Black"
  by code_simp+

theorem pattern_symmetry_witness:
  "squareBoard (boardFromSimpleBoard [''XOX'', ''...'', ''...'']) 3
   \<and> patternMatchesAt (boardFromSimpleBoard [''XOX'', ''...'', ''...'']) 1 1 Black
   \<and> patternMatchesAt (rotateBoard (boardFromSimpleBoard [''XOX'', ''...'', ''...''])) 1 1 Black
   \<and> patternMatchesAt (mirrorColumns (boardFromSimpleBoard [''XOX'', ''...'', ''...''])) 1 1 Black
   \<and> patternMatchesAt (mirrorRows (boardFromSimpleBoard [''XOX'', ''...'', ''...''])) 1 1 Black"
  using pattern_symmetry [OF hane_facts(1), of 1 1 Black] hane_facts by simp



section \<open>Rounding to doubles\<close>

lemma expAbove_log: "1 \<le> x \<Longrightarrow> expAbove x = \<lfloor>log 2 x\<rfloor>"
proof (induction x rule: expAbove.induct)
  case (1 x)
  show ?case
  proof (cases "x < 2")
    case True
    with "1.prems" have "\<lfloor>log 2 x\<rfloor> = 0" by (simp add: floor_log_eq_powr_iff)
    with True show ?thesis by (simp add: expAbove.simps [of x])
  next
    case False
    then have "expAbove (x / 2) = \<lfloor>log 2 (x / 2)\<rfloor>" by (intro "1.IH") simp_all
    moreover from False have "log 2 (x / 2) = log 2 x - 1" by (simp add: log_divide)
    ultimately show ?thesis using False by (simp add: expAbove.simps [of x])
  qed
qed

lemma expBelow_log: "0 < x \<Longrightarrow> x < 1 \<Longrightarrow> expBelow x = \<lfloor>log 2 x\<rfloor>"
proof (induction x rule: expBelow.induct)
  case (1 x)
  have l: "log 2 (2 * x) = log 2 x + 1" using "1.prems" by (simp add: log_mult)
  show ?case
  proof (cases "2 * x < 1")
    case True
    with "1.prems" have "expBelow (2 * x) = \<lfloor>log 2 (2 * x)\<rfloor>" by (intro "1.IH") simp_all
    with l "1.prems" show ?thesis by (simp add: expBelow.simps [of x])
  next
    case False
    then have "expBelow (2 * x) = 0" by (simp add: expBelow.simps [of "2 * x"])
    moreover from False "1.prems" have "\<lfloor>log 2 x\<rfloor> = - 1"
      by (simp add: floor_log_eq_powr_iff powr_neg_one)
    ultimately show ?thesis using "1.prems" by (simp add: expBelow.simps [of x])
  qed
qed

lemma binaryExponent_log: "0 < x \<Longrightarrow> binaryExponent x = \<lfloor>log 2 x\<rfloor>"
  by (simp add: binaryExponent_def expAbove_log expBelow_log)

lemma pow2_powr: "pow2 e = 2 powr of_int e"
  by (simp add: pow2_def powr_int)

text \<open>
  The rounding in terms of the binary logarithm, the double that the literal \<open>0.3\<close> denotes,
  and a product that rounds up to an integer: the double nearest to one third, times 3, is
  the double 1, so the pick from three elements is the second.
\<close>

lemma roundDouble_log:
  assumes "x \<noteq> 0"
  shows "roundDouble x =
           (let ulp = 2 powr (of_int (max \<lfloor>log 2 \<bar>x\<bar>\<rfloor> (- 1022)) - 52);
                q = \<bar>x\<bar> / ulp;
                f = \<lfloor>q\<rfloor>;
                n = (if q - of_int f < 1 / 2 \<or> (q - of_int f = 1 / 2 \<and> even f) then f else f + 1)
            in sgn x * of_int n * ulp)"
proof -
  from assms have "binaryExponent \<bar>x\<bar> = \<lfloor>log 2 \<bar>x\<bar>\<rfloor>" by (intro binaryExponent_log) simp
  with assms show ?thesis by (simp add: roundDouble_def pow2_powr)
qed

lemma roundDouble_literal: "roundDouble 0.3 = 5404319552844595 / 2 ^ 54"
  by code_simp

lemma roundDouble_tie: "roundDouble (6004799503160661 / 2 ^ 54 * 3) = 1"
  by code_simp

lemma pickRandom_tie: "pickRandom [a, b, c] (6004799503160661 / 2 ^ 54) = Some b"
  using roundDouble_tie by (simp add: pickRandom_def nth_opt_def)


section \<open>The empty board\<close>

lemma emptyFive_territory:
  "findDisputedTerritory emptyFive Black True = Inr (getEmptySpaces (board emptyFive))"
  by code_simp

lemma emptyFive_generators:
  "getSurroundMove (board emptyFive) Black (getEmptySpaces (board emptyFive)) True = None"
  "getLibertyGrowthMoves (board emptyFive) Black (getEmptySpaces (board emptyFive)) = []"
  "getEyeCreationMove (board emptyFive) Black (getEmptySpaces (board emptyFive)) = Inr None"
  "getEyeBlockingMove (board emptyFive) Black (getEmptySpaces (board emptyFive)) = Inr None"
  "bindE (getCornerMove (board emptyFive)) (\<lambda>p. Inr (map_option (\<lambda>q. pointMove (ref q)) p))
     = Inr (Some (pointMove (2, 2)))"
  "passCount emptyFive = 0"
  by code_simp+


lemma emptyFive_defend:
  "getDefendMove (board emptyFive) Black (getEmptySpaces (board emptyFive)) r = None"
  by (simp add: getDefendMove_def emptyFive_generators mathMax_def)

lemma emptyFive_moves:
  obtains moves where "getMoveOptions emptyFive Black r True = Inr moves"
    and "capture moves = Inr None" and "defendCapture moves = Inr None"
    and "eyeMove moves = Inr None" and "surround moves = Inr None"
    and "eyeBlock moves = Inr None" and "corner moves = Inr (Some (pointMove (2, 2)))"
proof -
  have "\<exists>moves. getMoveOptions emptyFive Black r True = Inr moves
          \<and> capture moves = Inr None \<and> defendCapture moves = Inr None
          \<and> eyeMove moves = Inr None \<and> surround moves = Inr None
          \<and> eyeBlock moves = Inr None \<and> corner moves = Inr (Some (pointMove (2, 2)))"
    unfolding getMoveOptions_def
    by (simp add: emptyFive_territory bindE_def Let_def emptyFive_generators(1,3,4,6) emptyFive_defend
        emptyFive_generators(5) [unfolded bindE_def])
  then show thesis using that by blast
qed

lemma illuminati_corner:
  assumes "capture moves = Inr None" and "defendCapture moves = Inr None"
    and "eyeMove moves = Inr None" and "surround moves = Inr None"
    and "eyeBlock moves = Inr None" and "corner moves = Inr (Some m)"
  shows "getIlluminatiPriorityMove moves r = Inr (Some (point m))"
  by (simp add: getIlluminatiPriorityMove_def orElse_def bindE_def assms)

text \<open>
  C8. On the empty 5x5 board, as \<open>boardStateFromSimpleBoard\<close> builds it (no previous boards,
  pass count 0), with Black to move and the Illuminati opponent, \<open>getMove\<close> returns the move
  \<open>(2, 2)\<close>, whatever values the random source returns.
\<close>

theorem getMove_empty_five:
  "getMove (boardStateFromSimpleBoard [''.....'', ''.....'', ''.....'', ''.....'', ''.....''] Illuminati)
     Black Illuminati rng = Inr (MovePlay 2 2)"
proof -
  obtain moves where m: "getMoveOptions emptyFive Black (rng 1) True = Inr moves"
    and g: "capture moves = Inr None" "defendCapture moves = Inr None"
      "eyeMove moves = Inr None" "surround moves = Inr None"
      "eyeBlock moves = Inr None" "corner moves = Inr (Some (pointMove (2, 2)))"
    by (rule emptyFive_moves)
  have "getFactionMove moves Illuminati (rng 2) = Inr (Some (2, 2))"
    using illuminati_corner [OF g] by (simp add: getFactionMove_def pointMove_def)
  with m have "getMove emptyFive Black Illuminati rng = Inr (MovePlay 2 2)"
    by (simp add: getMove_def isSmart_def bindE_def)
  then show ?thesis by (simp only: emptyFive_def)
qed



section \<open>Paths between points of one colour\<close>

lemma orthogonal_sym: "orthogonal r r' \<Longrightarrow> orthogonal r' r"
  by (cases r; cases r') (auto simp: orthogonal_def)

lemma sameColorStep_sym: "sameColorStep b r r' \<Longrightarrow> sameColorStep b r' r"
  by (auto simp: sameColorStep_def dest: orthogonal_sym)

lemma connected_refl: "connected b r r"
  by (simp add: connected_def)

lemma connected_trans: "connected b r r' \<Longrightarrow> connected b r' r'' \<Longrightarrow> connected b r r''"
  by (simp add: connected_def)

lemma connected_step: "connected b r r' \<Longrightarrow> sameColorStep b r' r'' \<Longrightarrow> connected b r r''"
  by (simp add: connected_def)

lemma connected_sym: "connected b r r' \<Longrightarrow> connected b r' r"
  unfolding connected_def
proof (induction rule: rtranclp_induct)
  case base
  show ?case by simp
next
  case (step y z)
  from step.hyps(2) have "sameColorStep b z y" by (rule sameColorStep_sym)
  with step.IH show ?case by (meson converse_rtranclp_into_rtranclp)
qed

lemma colorAt_point: "getPoint b i j = Some q \<Longrightarrow> colorAt b i j = Some (color q)"
  by (simp add: colorAt_def)

lemma filterNotNullish_mem4:
  "n \<in> set (filterNotNullish [a, b, c, d]) \<longleftrightarrow> (a = Some n \<or> b = Some n \<or> c = Some n \<or> d = Some n)"
  by (cases a; cases b; cases c; cases d) auto

lemma neighbors_mem:
  "n \<in> set (getArrayFromNeighbor (findNeighbors b i j))
     \<longleftrightarrow> (getPoint b i (j + 1) = Some n \<or> getPoint b (i + 1) j = Some n
           \<or> getPoint b i (j - 1) = Some n \<or> getPoint b (i - 1) j = Some n)"
  unfolding getArrayFromNeighbor_def findNeighbors_def filterNotNullish_mem4 by simp

lemma neighbors_iff:
  "n \<in> set (getArrayFromNeighbor (findNeighbors b i j))
     \<longleftrightarrow> (\<exists>r'. orthogonal (i, j) r' \<and> getPoint b (fst r') (snd r') = Some n)"
proof
  assume "n \<in> set (getArrayFromNeighbor (findNeighbors b i j))"
  then consider "getPoint b i (j + 1) = Some n" | "getPoint b (i + 1) j = Some n"
      | "getPoint b i (j - 1) = Some n" | "getPoint b (i - 1) j = Some n"
    unfolding neighbors_mem by blast
  then show "\<exists>r'. orthogonal (i, j) r' \<and> getPoint b (fst r') (snd r') = Some n"
  proof cases
    case 1 then show ?thesis by (intro exI [of _ "(i, j + 1)"]) (simp add: orthogonal_def)
  next
    case 2 then show ?thesis by (intro exI [of _ "(i + 1, j)"]) (simp add: orthogonal_def)
  next
    case 3 then show ?thesis by (intro exI [of _ "(i, j - 1)"]) (simp add: orthogonal_def)
  next
    case 4 then show ?thesis by (intro exI [of _ "(i - 1, j)"]) (simp add: orthogonal_def)
  qed
next
  assume "\<exists>r'. orthogonal (i, j) r' \<and> getPoint b (fst r') (snd r') = Some n"
  then obtain r' where o: "orthogonal (i, j) r'" and g: "getPoint b (fst r') (snd r') = Some n" by blast
  from o consider "r' = (i, j + 1)" | "r' = (i + 1, j)" | "r' = (i, j - 1)" | "r' = (i - 1, j)"
    by (auto simp: orthogonal_def)
  then show "n \<in> set (getArrayFromNeighbor (findNeighbors b i j))"
    unfolding neighbors_mem using g by cases simp_all
qed

lemma validBoard_ref: "validBoard b \<Longrightarrow> getPoint b i j = Some q \<Longrightarrow> ref q = (i, j)"
  by (auto simp: validBoard_iff getPoint_def ref_def split: option.splits)

lemma sameNeighbors_step:
  assumes "validBoard b" "a \<in> set (allPoints b)" "n \<in> sameNeighbors b a"
  shows "sameColorStep b (ref a) (ref n)" "n \<in> set (allPoints b)"
proof -
  from assms(3) have n: "n \<in> set (getArrayFromNeighbor (findNeighbors b (px a) (py a)))" and c: "color n = color a"
    by (simp_all add: sameNeighbors_def)
  from n obtain r' where r': "orthogonal (px a, py a) r'" "getPoint b (fst r') (snd r') = Some n"
    by (auto simp: neighbors_iff)
  from validBoard_ref [OF assms(1) r'(2)] have rn: "ref n = r'" by simp
  from validBoard_getPoint [OF assms(1,2)] have ga: "getPoint b (px a) (py a) = Some a" .
  show "n \<in> set (allPoints b)" using r'(2) by (rule getPoint_allPoints)
  show "sameColorStep b (ref a) (ref n)"
    unfolding rn using r' ga c
    by (simp add: sameColorStep_def ref_def colorAt_point)
qed

lemma step_sameNeighbors:
  assumes "validBoard b" "a \<in> set (allPoints b)" "sameColorStep b (ref a) r'"
  obtains n where "n \<in> sameNeighbors b a" "ref n = r'"
proof -
  from validBoard_getPoint [OF assms(1,2)] have ga: "getPoint b (px a) (py a) = Some a" .
  from assms(3) have o: "orthogonal (px a, py a) r'"
    and c: "colorAt b (fst r') (snd r') = Some (color a)"
    using ga by (simp_all add: sameColorStep_def ref_def colorAt_point)
  from c obtain n where n: "getPoint b (fst r') (snd r') = Some n" "color n = color a"
    by (auto simp: colorAt_def)
  with o have "n \<in> sameNeighbors b a" unfolding sameNeighbors_def neighbors_iff by blast
  moreover have "ref n = r'" using validBoard_ref [OF assms(1) n(1)] by simp
  ultimately show thesis by (rule that)
qed

lemma contains_snoc: "contains (c @ [x]) n \<longleftrightarrow> contains c n \<or> ref x = ref n"
  by (auto simp: contains_def ref_def)


section \<open>The flood fill finds the connected component\<close>

lemma connected_color:
  "connected b r r' \<Longrightarrow> colorAt b (fst r') (snd r') = colorAt b (fst r) (snd r)"
  unfolding connected_def
  by (induction rule: rtranclp_induct) (simp_all add: sameColorStep_def)

lemma component_color:
  assumes "validBoard b" "p \<in> set (allPoints b)" "q \<in> set (allPoints b)" "connected b (ref p) (ref q)"
  shows "color q = color p"
proof -
  have "colorAt b (px p) (py p) = Some (color p)" "colorAt b (px q) (py q) = Some (color q)"
    using validBoard_getPoint [OF assms(1)] assms(2,3) by (simp_all add: colorAt_point)
  with connected_color [OF assms(4)] show ?thesis by (simp add: ref_def)
qed

lemma visitInv_visitNeighbor:
  assumes v: "validBoard b" and p: "p \<in> set (allPoints b)"
    and n: "n \<in> set (getArrayFromNeighbor (findNeighbors b (px cur) (py cur)))"
    and inv: "visitInv b p cur V (c, a, s)"
  shows "visitInv b p cur (insert n V) (visitNeighbor cur (c, a, s) n)"
proof -
  from inv have A: "\<forall>q \<in> set a. q \<in> set (allPoints b) \<and> connected b (ref p) (ref q)"
    and B: "set s \<subseteq> set a" and C: "p \<in> set a"
    and D: "\<forall>x \<in> set a. x \<notin> set s \<longrightarrow> x \<noteq> cur \<longrightarrow> sameNeighbors b x \<subseteq> set a"
    and E: "\<forall>n \<in> set (allPoints b). color n = color p \<longrightarrow> contains c n \<longrightarrow> n \<in> set a"
    and F: "\<forall>n \<in> V. color n = color cur \<longrightarrow> n \<in> set a"
    and G: "cur \<in> set a"
    unfolding visitInv_def by simp_all
  from A G have curP: "cur \<in> set (allPoints b)" and curC: "connected b (ref p) (ref cur)" by blast+
  have colcur: "color cur = color p" using v p curP curC by (rule component_color)
  have nP: "n \<in> set (allPoints b)" using n by (rule neighbors_allPoints)
  have same: "x = n" if "x \<in> set (allPoints b)" "ref n = ref x" for x
    by (rule sym) (rule validBoard_ref_inj [OF v nP that])
  show ?thesis
  proof (cases "color n = color cur \<and> \<not> contains c n")
    case True
    then have st: "visitNeighbor cur (c, a, s) n = (c @ [n], a @ [n], s @ [n])"
      by (simp add: visitNeighbor_def)
    from True n have "n \<in> sameNeighbors b cur" by (simp add: sameNeighbors_def)
    from sameNeighbors_step(1) [OF v curP this] curC have nC: "connected b (ref p) (ref n)"
      by (rule connected_step [rotated])
    have A': "\<forall>q \<in> set (a @ [n]). q \<in> set (allPoints b) \<and> connected b (ref p) (ref q)"
      using A nP nC by auto
    have D': "\<forall>x \<in> set (a @ [n]). x \<notin> set (s @ [n]) \<longrightarrow> x \<noteq> cur \<longrightarrow> sameNeighbors b x \<subseteq> set (a @ [n])"
      using D by auto
    have E': "\<forall>x \<in> set (allPoints b). color x = color p \<longrightarrow> contains (c @ [n]) x \<longrightarrow> x \<in> set (a @ [n])"
    proof (intro ballI impI)
      fix x assume x: "x \<in> set (allPoints b)" "color x = color p" "contains (c @ [n]) x"
      from x(3) consider "contains c x" | "ref n = ref x" unfolding contains_snoc by blast
      then show "x \<in> set (a @ [n])"
      proof cases
        case 1 with E x show ?thesis by simp
      next
        case 2 with same [OF x(1)] show ?thesis by simp
      qed
    qed
    have F': "\<forall>x \<in> insert n V. color x = color cur \<longrightarrow> x \<in> set (a @ [n])"
      using F by auto
    show ?thesis
      unfolding st visitInv_def using A' B C D' E' F' G by auto
  next
    case False
    then have st: "visitNeighbor cur (c, a, s) n = (c @ [n], a, s)"
      by (auto simp: visitNeighbor_def)
    have nin: "n \<in> set a" if "color n = color cur"
    proof -
      from that False have "contains c n" by simp
      with E nP that colcur show ?thesis by simp
    qed
    have E': "\<forall>x \<in> set (allPoints b). color x = color p \<longrightarrow> contains (c @ [n]) x \<longrightarrow> x \<in> set a"
    proof (intro ballI impI)
      fix x assume x: "x \<in> set (allPoints b)" "color x = color p" "contains (c @ [n]) x"
      from x(3) consider "contains c x" | "ref n = ref x" unfolding contains_snoc by blast
      then show "x \<in> set a"
      proof cases
        case 1 with E x show ?thesis by simp
      next
        case 2
        with same [OF x(1)] have "x = n" by simp
        with x(2) colcur nin show ?thesis by simp
      qed
    qed
    have F': "\<forall>x \<in> insert n V. color x = color cur \<longrightarrow> x \<in> set a"
      using F nin by auto
    show ?thesis
      unfolding st visitInv_def using A B C D E' F' G by simp
  qed
qed

lemma visitInv_foldl:
  assumes "validBoard b" "p \<in> set (allPoints b)"
    and "set ns \<subseteq> set (getArrayFromNeighbor (findNeighbors b (px cur) (py cur)))"
    and "visitInv b p cur V st"
  shows "visitInv b p cur (V \<union> set ns) (foldl (visitNeighbor cur) st ns)"
  using assms(3,4)
proof (induction ns arbitrary: V st)
  case Nil
  then show ?case by simp
next
  case (Cons n ns)
  obtain c a s where st: "st = (c, a, s)" by (cases st)
  from Cons.prems have "visitInv b p cur (insert n V) (visitNeighbor cur st n)"
    unfolding st by (intro visitInv_visitNeighbor assms(1,2)) simp_all
  from Cons.IH [OF _ this] Cons.prems(1) show ?case by simp
qed

lemma floodInv_floodStep:
  assumes v: "validBoard b" and p: "p \<in> set (allPoints b)"
    and inv: "floodInv b p (c, a, s)" and ne: "s \<noteq> []"
  shows "floodInv b p (floodStep b (c, a, s))"
proof -
  let ?cur = "last s"
  let ?ns = "getArrayFromNeighbor (findNeighbors b (px ?cur) (py ?cur))"
  from inv have A: "\<forall>q \<in> set a. q \<in> set (allPoints b) \<and> connected b (ref p) (ref q)"
    and B: "set s \<subseteq> set a" and C: "p \<in> set a"
    and D: "\<forall>x \<in> set a. x \<notin> set s \<longrightarrow> sameNeighbors b x \<subseteq> set a"
    and E: "\<forall>n \<in> set (allPoints b). color n = color p \<longrightarrow> contains c n \<longrightarrow> n \<in> set a"
    unfolding floodInv_def by simp_all
  from ne B have G: "?cur \<in> set a" by auto
  with A have curP: "?cur \<in> set (allPoints b)" by blast
  have sset: "set s = insert ?cur (set (butlast s))"
    using ne by (metis append_butlast_last_id list.simps(15) rotate1.simps(2) set_rotate1)
  have D0: "\<forall>x \<in> set a. x \<notin> set (butlast s) \<longrightarrow> x \<noteq> ?cur \<longrightarrow> sameNeighbors b x \<subseteq> set a"
    using D sset by auto
  have E0: "\<forall>n \<in> set (allPoints b). color n = color p \<longrightarrow> contains (c @ [?cur]) n \<longrightarrow> n \<in> set a"
  proof (intro ballI impI)
    fix x assume x: "x \<in> set (allPoints b)" "color x = color p" "contains (c @ [?cur]) x"
    from x(3) consider "contains c x" | "ref ?cur = ref x" unfolding contains_snoc by blast
    then show "x \<in> set a"
    proof cases
      case 1 with E x show ?thesis by simp
    next
      case 2
      with validBoard_ref_inj [OF v curP x(1)] G show ?thesis by simp
    qed
  qed
  have B0: "set (butlast s) \<subseteq> set a" using B sset by auto
  have "visitInv b p ?cur {} (c @ [?cur], a, butlast s)"
    unfolding visitInv_def using A B0 C D0 E0 G by simp
  from visitInv_foldl [OF v p _ this, of ?ns]
  have fin: "visitInv b p ?cur (set ?ns) (floodStep b (c, a, s))"
    by (simp add: floodStep_def Let_def)
  obtain c' a' s' where st: "floodStep b (c, a, s) = (c', a', s')" by (cases "floodStep b (c, a, s)")
  from fin have A': "\<forall>q \<in> set a'. q \<in> set (allPoints b) \<and> connected b (ref p) (ref q)"
    and B': "set s' \<subseteq> set a'" and C': "p \<in> set a'"
    and D': "\<forall>x \<in> set a'. x \<notin> set s' \<longrightarrow> x \<noteq> ?cur \<longrightarrow> sameNeighbors b x \<subseteq> set a'"
    and E': "\<forall>n \<in> set (allPoints b). color n = color p \<longrightarrow> contains c' n \<longrightarrow> n \<in> set a'"
    and F': "\<forall>n \<in> set ?ns. color n = color ?cur \<longrightarrow> n \<in> set a'"
    unfolding st visitInv_def by simp_all
  have cur: "sameNeighbors b ?cur \<subseteq> set a'" using F' by (auto simp: sameNeighbors_def)
  have "\<forall>x \<in> set a'. x \<notin> set s' \<longrightarrow> sameNeighbors b x \<subseteq> set a'"
    using D' cur by blast
  with A' B' C' E' show ?thesis unfolding st floodInv_def by simp
qed

lemma floodLoop_final:
  "validBoard b \<Longrightarrow> p \<in> set (allPoints b) \<Longrightarrow> floodInv b p (c, a, s)
     \<Longrightarrow> floodFinal b p (floodLoop b c a s)"
proof (induction b c a s rule: floodLoop.induct)
  case (1 b c a s)
  show ?case
  proof (cases "s = []")
    case True
    with "1.prems" show ?thesis
      by (simp add: floodInv_def floodFinal_def floodLoop.simps [of b c a "[]"])
  next
    case False
    obtain c' a' s' where st: "floodStep b (c, a, s) = (c', a', s')" by (cases "floodStep b (c, a, s)")
    have "floodInv b p (c', a', s')"
      using floodInv_floodStep [OF "1.prems" False] by (simp add: st)
    from "1.IH" [OF False st [symmetric] refl "1.prems"(1,2) this] False st
    show ?thesis by (simp add: floodLoop.simps [of b c a s])
  qed
qed


lemma floodInv_initial:
  assumes "p \<in> set (allPoints b)"
  shows "floodInv b p ([], [p], [p])"
  using assms by (simp add: floodInv_def connected_refl contains_def)

lemma floodFinal_component:
  assumes v: "validBoard b" and p: "p \<in> set (allPoints b)" and f: "floodFinal b p adj"
  shows "ref ` set adj = {r. connected b (ref p) r}"
proof (intro set_eqI iffI)
  fix r assume "r \<in> ref ` set adj"
  with f show "r \<in> {r. connected b (ref p) r}" by (auto simp: floodFinal_def)
next
  fix r assume "r \<in> {r. connected b (ref p) r}"
  then have "rtranclp (sameColorStep b) (ref p) r" by (simp add: connected_def)
  then have "\<exists>q \<in> set adj. ref q = r"
  proof (induction rule: rtranclp_induct)
    case base
    from f show ?case by (auto simp: floodFinal_def)
  next
    case (step y z)
    then obtain q where q: "q \<in> set adj" "ref q = y" by blast
    with f have qa: "q \<in> set (allPoints b)" and cl: "sameNeighbors b q \<subseteq> set adj"
      by (auto simp: floodFinal_def)
    from step.hyps(2) q(2) have "sameColorStep b (ref q) z" by simp
    from step_sameNeighbors [OF v qa this] obtain n where "n \<in> sameNeighbors b q" "ref n = z" .
    with cl show ?case by blast
  qed
  then show "r \<in> ref ` set adj" by blast
qed

lemma findAdjacentPointsInChain_point:
  "getPoint b i j = Some p \<Longrightarrow> findAdjacentPointsInChain b i j = Inr (floodLoop b [] [p] [p])"
  by (auto simp: findAdjacentPointsInChain_def getPoint_def getCell_def split: option.splits)

lemma findAdjacentPointsInChain_component:
  assumes "validBoard b" "getPoint b i j = Some p"
  obtains members where "findAdjacentPointsInChain b i j = Inr members"
    and "ref ` set members = {r. connected b (i, j) r}"
proof -
  have pa: "p \<in> set (allPoints b)" using assms(2) by (rule getPoint_allPoints)
  have "floodFinal b p (floodLoop b [] [p] [p])"
    using assms(1) pa floodInv_initial [OF pa] by (rule floodLoop_final)
  from floodFinal_component [OF assms(1) pa this] validBoard_ref [OF assms]
  have "ref ` set (floodLoop b [] [p] [p]) = {r. connected b (i, j) r}" by simp
  with findAdjacentPointsInChain_point [OF assms(2)] that show thesis by blast
qed

lemma chainId_idOfPos: "chainId p = idOfPos (ref p)"
  by (simp add: chainId_def idOfPos_def ref_def)

lemma getPoint_getCell: "getPoint b i j = Some p \<longleftrightarrow> getCell b i j = Some (Some p)"
  by (auto simp: getPoint_def split: option.splits)

lemma chainAt_updateChainsAt_skip:
  assumes "getPoint b (fst pos) (snd pos) = None \<or> (\<exists>p. getPoint b (fst pos) (snd pos) = Some p \<and> chain p \<noteq> [])"
  shows "updateChainsAt b pos = b"
  using assms by (auto simp: updateChainsAt_def)

lemma chainAt_updateChainsAt:
  assumes v: "validBoard b" and g: "getPoint b (fst pos) (snd pos) = Some p" and c: "chain p = []"
  shows "chainAt (updateChainsAt b pos) r =
           (if connected b pos r \<and> getPoint b (fst r) (snd r) \<noteq> None then Some (idOfPos pos) else chainAt b r)"
proof -
  obtain i j where pos: "pos = (i, j)" by (cases pos)
  from g pos have g': "getPoint b i j = Some p" by simp
  obtain members where m: "findAdjacentPointsInChain b i j = Inr members"
    and ms: "ref ` set members = {r. connected b (i, j) r}"
    using findAdjacentPointsInChain_component [OF v g'] .
  let ?f = "\<lambda>member. member\<lparr>chain := chainId p, liberties := Some (map ref (findLibertiesForChain b members))\<rparr>"
  have u: "updateChainsAt b pos = foldl (modifyPoint ?f) b (map ref members)"
    using g' c m by (simp add: updateChainsAt_def pos Let_def)
  have idp: "chainId p = idOfPos pos"
    using validBoard_ref [OF v g'] by (simp add: chainId_idOfPos pos)
  have cell: "getCell (updateChainsAt b pos) (fst r) (snd r) =
          (if connected b pos r then map_option (map_option ?f) (getCell b (fst r) (snd r))
           else getCell b (fst r) (snd r))"
    unfolding u using ms
    by (subst getCell_foldl_modifyPoint) (auto simp: pos)
  show ?thesis
  proof (cases "getCell b (fst r) (snd r)")
    case None
    with cell show ?thesis by (simp add: chainAt_def getPoint_def)
  next
    case (Some cell0)
    show ?thesis
    proof (cases cell0)
      case None
      with Some cell show ?thesis by (simp add: chainAt_def getPoint_def)
    next
      case (Some q)
      with \<open>getCell b (fst r) (snd r) = Some cell0\<close> cell idp show ?thesis
        by (simp add: chainAt_def getPoint_def)
    qed
  qed
qed


section \<open>Chain ids name positions\<close>

lemma digit_cases:
  assumes "n < (10::nat)"
  obtains "n = 0" | "n = 1" | "n = 2" | "n = 3" | "n = 4" | "n = 5" | "n = 6" | "n = 7" | "n = 8" | "n = 9"
  using assms by atomize_elim arith

lemma digitValue_digit: "n < 10 \<Longrightarrow> digitValue (''0123456789'' ! n) = n"
  by (erule digit_cases) (simp_all add: digitValue_def)

lemma digit_not_comma: "n < 10 \<Longrightarrow> ''0123456789'' ! n \<noteq> CHR '',''"
  by (erule digit_cases) simp_all

lemma decodeNat_snoc: "decodeNat (s @ [c]) = 10 * decodeNat s + digitValue c"
  by (simp add: decodeNat_def)

lemma decodeNat_natToString: "decodeNat (natToString n) = n"
proof (induction n rule: natToString.induct)
  case (1 n)
  show ?case
  proof (cases "n < 10")
    case True
    then show ?thesis
      by (subst natToString.simps) (simp add: decodeNat_def digitValue_digit)
  next
    case False
    with 1 have "decodeNat (natToString (n div 10)) = n div 10" by simp
    with False show ?thesis
      by (subst natToString.simps) (simp add: decodeNat_snoc digitValue_digit)
  qed
qed

lemma natToString_no_comma: "CHR '','' \<notin> set (natToString n)"
proof (induction n rule: natToString.induct)
  case (1 n)
  show ?case
  proof (cases "n < 10")
    case True
    then show ?thesis
      by (subst natToString.simps) (simp add: digit_not_comma [symmetric])
  next
    case False
    with 1 have "CHR '','' \<notin> set (natToString (n div 10))" by simp
    moreover have "''0123456789'' ! (n mod 10) \<noteq> CHR '',''" by (rule digit_not_comma) simp
    ultimately show ?thesis using False
      by (subst natToString.simps) auto
  qed
qed

lemma natToString_inj: "natToString n = natToString m \<Longrightarrow> n = m"
  by (metis decodeNat_natToString)

lemma split_at_comma:
  assumes "CHR '','' \<notin> set xs" "CHR '','' \<notin> set xs'" "xs @ CHR '','' # ys = xs' @ CHR '','' # ys'"
  shows "xs = xs' \<and> ys = ys'"
proof -
  have t: "CHR '','' \<notin> set zs \<Longrightarrow> takeWhile (\<lambda>c. c \<noteq> CHR '','') (zs @ CHR '','' # ws) = zs" for zs ws
    by (induction zs) auto
  have "takeWhile (\<lambda>c. c \<noteq> CHR '','') (xs @ CHR '','' # ys) = xs"
    using assms(1) by (rule t)
  moreover have "takeWhile (\<lambda>c. c \<noteq> CHR '','') (xs' @ CHR '','' # ys') = xs'"
    using assms(2) by (rule t)
  ultimately have "xs = xs'" using assms(3) by simp
  with assms(3) show ?thesis by simp
qed

lemma idOfPos_inj:
  assumes "0 \<le> fst r" "0 \<le> snd r" "0 \<le> fst r'" "0 \<le> snd r'" "idOfPos r = idOfPos r'"
  shows "r = r'"
proof -
  from assms have "natToString (nat (fst r)) @ CHR '','' # natToString (nat (snd r))
                 = natToString (nat (fst r')) @ CHR '','' # natToString (nat (snd r'))"
    by (simp add: idOfPos_def numberToString_def)
  from split_at_comma [OF natToString_no_comma natToString_no_comma this]
  have "nat (fst r) = nat (fst r')" "nat (snd r) = nat (snd r')"
    by (auto dest: natToString_inj)
  with assms(1-4) have "fst r = fst r'" "snd r = snd r'" by linarith+
  then show ?thesis by (simp add: prod_eq_iff)
qed

lemma idOfPos_nonempty: "idOfPos r \<noteq> []"
  by (simp add: idOfPos_def)


section \<open>The scan of \<open>updateChains\<close>\<close>

lemma colorAt_stone_eq:
  assumes "\<And>i j. stone b' i j = stone b i j"
  shows "colorAt b' i j = colorAt b i j"
  using assms by (simp add: colorAt_stone)

lemma connected_stone_eq:
  assumes "\<And>i j. stone b' i j = stone b i j"
  shows "connected b' = connected b"
proof -
  have "sameColorStep b' = sameColorStep b"
    by (intro ext) (simp add: sameColorStep_def colorAt_stone_eq [of b' b, OF assms])
  then show ?thesis by (simp add: connected_def)
qed

lemma connected_start:
  assumes "connected b r r'"
  shows "r = r' \<or> colorAt b (fst r) (snd r) \<noteq> None"
  using assms unfolding connected_def
  by (cases rule: converse_rtranclpE) (simp_all add: sameColorStep_def)

lemma chainAt_None_iff: "chainAt b r = None \<longleftrightarrow> colorAt b (fst r) (snd r) = None"
  by (simp add: chainAt_def colorAt_def)

lemma chainAt_stone_None:
  assumes "\<And>i j. stone b' i j = stone b i j"
  shows "chainAt b' r = None \<longleftrightarrow> chainAt b r = None"
  by (simp add: chainAt_None_iff colorAt_stone_eq [of b' b, OF assms])

lemma find_append_first:
  assumes "\<forall>x \<in> set xs. \<not> P x" "P y"
  shows "find P (xs @ y # ys) = Some y"
  using assms by (induction xs) simp_all

lemma scanInv_step:
  assumes so: "scanOrder b0 = ds @ pos # rest" and v0: "validBoard b0" and inv: "scanInv b0 ds bk"
  shows "scanInv b0 (ds @ [pos]) (updateChainsAt bk pos)"
proof -
  from inv have S1: "\<And>i j. stone bk i j = stone b0 i j"
    and S2: "\<And>r c. chainAt bk r = Some c \<Longrightarrow> c \<noteq> [] \<Longrightarrow>
               \<exists>m \<in> set ds. firstMember b0 r = Some m \<and> c = idOfPos m"
    and S3: "\<And>r. r \<in> set ds \<Longrightarrow> chainAt bk r \<noteq> Some []"
    and S4: "\<And>r r' c. chainAt bk r = Some c \<Longrightarrow> c \<noteq> [] \<Longrightarrow> connected b0 r r' \<Longrightarrow> chainAt bk r' \<noteq> Some []"
    unfolding scanInv_def by blast+
  have vk: "validBoard bk" using S1 v0 by (rule validBoard_stone)
  have con: "connected bk = connected b0" using S1 by (rule connected_stone_eq)
  have S1': "\<And>i j. stone (updateChainsAt bk pos) i j = stone b0 i j"
    by (simp add: stone_updateChainsAt S1)
  show ?thesis
  proof (cases "chainAt bk pos = Some []")
    case False
    then have same: "updateChainsAt bk pos = bk"
      by (intro chainAt_updateChainsAt_skip) (auto simp: chainAt_def)
    have "\<forall>r \<in> set (ds @ [pos]). chainAt bk r \<noteq> Some []" using S3 False by auto
    moreover have "\<forall>r c. chainAt bk r = Some c \<longrightarrow> c \<noteq> [] \<longrightarrow>
             (\<exists>m \<in> set (ds @ [pos]). firstMember b0 r = Some m \<and> c = idOfPos m)"
      using S2 by fastforce
    ultimately show ?thesis
      unfolding same scanInv_def using S1 S4 by blast
  next
    case True
    then obtain p where g: "getPoint bk (fst pos) (snd pos) = Some p" and c: "chain p = []"
      by (auto simp: chainAt_def)
    have new: "chainAt (updateChainsAt bk pos) r =
                 (if connected b0 pos r \<and> chainAt bk r \<noteq> None then Some (idOfPos pos) else chainAt bk r)" for r
      using chainAt_updateChainsAt [OF vk g c, of r] by (simp add: con chainAt_def)
    have newT: "chainAt (updateChainsAt bk pos) r = Some (idOfPos pos)"
      if "connected b0 pos r \<and> chainAt bk r \<noteq> None" for r
      unfolding new using that by (rule if_P)
    have newF: "chainAt (updateChainsAt bk pos) r = chainAt bk r"
      if "\<not> (connected b0 pos r \<and> chainAt bk r \<noteq> None)" for r
      unfolding new using that by (rule if_not_P)
    have U: "c' = []" if "connected b0 pos r" "chainAt bk r = Some c'" for r c'
    proof (rule ccontr)
      assume "c' \<noteq> []"
      from S4 [OF that(2) this connected_sym [OF that(1)]] True show False by simp
    qed
    have N: "\<not> connected b0 m' pos" if m': "m' \<in> set ds" for m'
    proof
      assume cm: "connected b0 m' pos"
      show False
      proof (cases "chainAt bk m'")
        case None
        then have "chainAt b0 m' = None" using chainAt_stone_None [of bk b0, OF S1] by simp
        then have "colorAt b0 (fst m') (snd m') = None" by (simp add: chainAt_None_iff)
        with connected_start [OF cm] have "m' = pos" by simp
        with None True show False by simp
      next
        case (Some c')
        from U [OF connected_sym [OF cm] Some] Some S3 [OF m'] show False by simp
      qed
    qed
    have F: "firstMember b0 r = Some pos" if "connected b0 pos r" for r
      unfolding firstMember_def so
    proof (rule find_append_first)
      show "\<forall>x \<in> set ds. \<not> connected b0 x r"
        using N connected_trans [OF _ connected_sym [OF that]] by blast
      show "connected b0 pos r" by (rule that)
    qed
    have S2': "\<exists>m \<in> set (ds @ [pos]). firstMember b0 r = Some m \<and> c' = idOfPos m"
      if "chainAt (updateChainsAt bk pos) r = Some c'" "c' \<noteq> []" for r c'
    proof (cases "connected b0 pos r \<and> chainAt bk r \<noteq> None")
      case True
      with that(1) have "c' = idOfPos pos" by (simp add: newT)
      with F True show ?thesis by simp
    next
      case False
      from that(1) have "chainAt bk r = Some c'" unfolding newF [OF False] .
      from S2 [OF this that(2)] show ?thesis by auto
    qed
    have S3': "chainAt (updateChainsAt bk pos) r \<noteq> Some []" if "r \<in> set (ds @ [pos])" for r
    proof (cases "connected b0 pos r \<and> chainAt bk r \<noteq> None")
      case True
      then show ?thesis by (simp add: newT idOfPos_nonempty)
    next
      case False
      note nc = this
      show ?thesis
      proof (cases "r = pos")
        case True
        with nc \<open>chainAt bk pos = Some []\<close> connected_refl [of b0 pos] show ?thesis by simp
      next
        case False
        with that have "r \<in> set ds" by simp
        from S3 [OF this] show ?thesis unfolding newF [OF nc] .
      qed
    qed
    have S4': "chainAt (updateChainsAt bk pos) r' \<noteq> Some []"
      if "chainAt (updateChainsAt bk pos) r = Some c'" "c' \<noteq> []" "connected b0 r r'" for r r' c'
    proof (cases "connected b0 pos r' \<and> chainAt bk r' \<noteq> None")
      case True
      then show ?thesis by (simp add: newT idOfPos_nonempty)
    next
      case False
      then have e: "chainAt (updateChainsAt bk pos) r' = chainAt bk r'" by (rule newF)
      show ?thesis
      proof (cases "connected b0 pos r")
        case True
        from connected_trans [OF True that(3)] False have "chainAt bk r' = None" by simp
        with e show ?thesis by simp
      next
        case False
        then have "chainAt (updateChainsAt bk pos) r = chainAt bk r" by (intro newF) simp
        with that(1) have "chainAt bk r = Some c'" by simp
        from S4 [OF this that(2,3)] e show ?thesis by simp
      qed
    qed
    show ?thesis
      unfolding scanInv_def using S1' S2' S3' S4' by blast
  qed
qed

lemma scanInv_foldl:
  "scanOrder b0 = ds @ rest \<Longrightarrow> validBoard b0 \<Longrightarrow> scanInv b0 ds bk
     \<Longrightarrow> scanInv b0 (ds @ rest) (foldl updateChainsAt bk rest)"
proof (induction rest arbitrary: ds bk)
  case Nil
  then show ?case by simp
next
  case (Cons pos rest)
  from Cons.prems have "scanInv b0 (ds @ [pos]) (updateChainsAt bk pos)"
    by (intro scanInv_step)
  from Cons.IH [OF _ Cons.prems(2) this] Cons.prems(1) show ?case by simp
qed


lemma set_mapi: "set (mapi f xs) = {f (int k) (xs ! k) | k. k < length xs}"
proof -
  have "set (mapi f xs) = {mapi f xs ! k | k. k < length (mapi f xs)}" by (rule set_conv_nth)
  also have "\<dots> = {f (int k) (xs ! k) | k. k < length xs}"
    by (simp add: length_mapi nth_mapi cong: rev_conj_cong)
  finally show ?thesis .
qed

lemma mem_mapi: "y \<in> set (mapi f xs) \<longleftrightarrow> (\<exists>k. k < length xs \<and> y = f (int k) (xs ! k))"
  unfolding set_mapi by blast

lemma scanOrder_mem:
  "r \<in> set (scanOrder b) \<longleftrightarrow> (\<exists>i j. i < length b \<and> j < length (b ! i) \<and> r = (int i, int j))"
proof -
  have "r \<in> set (scanOrder b) \<longleftrightarrow> (\<exists>ys. ys \<in> set (mapi (\<lambda>i column. mapi (\<lambda>j cell. (i, j)) column) b) \<and> r \<in> set ys)"
    unfolding scanOrder_def set_concat by blast
  also have "\<dots> \<longleftrightarrow> (\<exists>i. i < length b \<and> r \<in> set (mapi (\<lambda>j cell. (int i, j)) (b ! i)))"
    unfolding mem_mapi [of _ _ b] by blast
  also have "\<dots> \<longleftrightarrow> (\<exists>i j. i < length b \<and> j < length (b ! i) \<and> r = (int i, int j))"
    unfolding mem_mapi by blast
  finally show ?thesis .
qed

lemma scanOrder_iff: "r \<in> set (scanOrder b) \<longleftrightarrow> getCell b (fst r) (snd r) \<noteq> None"
proof
  assume "r \<in> set (scanOrder b)"
  then obtain i j where "i < length b" "j < length (b ! i)" "r = (int i, int j)"
    unfolding scanOrder_mem by blast
  then have "getCell b (fst r) (snd r) = Some (b ! i ! j)" by (simp add: getCell_Some_iff)
  then show "getCell b (fst r) (snd r) \<noteq> None" by simp
next
  assume "getCell b (fst r) (snd r) \<noteq> None"
  then obtain cell where "getCell b (fst r) (snd r) = Some cell" by blast
  then have r: "0 \<le> fst r" "nat (fst r) < length b" "0 \<le> snd r" "nat (snd r) < length (b ! nat (fst r))"
    by (simp_all add: getCell_Some_iff)
  then have "r = (int (nat (fst r)), int (nat (snd r)))" by (simp add: prod_eq_iff)
  with r(2,4) show "r \<in> set (scanOrder b)" unfolding scanOrder_mem by blast
qed

lemma scanOrder_nonneg: "r \<in> set (scanOrder b) \<Longrightarrow> 0 \<le> fst r \<and> 0 \<le> snd r"
  unfolding scanOrder_iff by (cases "getCell b (fst r) (snd r)") (auto simp: getCell_Some_iff)

lemma mapi_cong_length:
  assumes "length xs = length ys" "\<And>k. k < length xs \<Longrightarrow> f (int k) (xs ! k) = g (int k) (ys ! k)"
  shows "mapi f xs = mapi g ys"
  using assms by (intro nth_equalityI) (simp_all add: length_mapi nth_mapi)

lemma scanOrder_clearChains: "scanOrder (clearChains b) = scanOrder b"
  unfolding scanOrder_def
  by (intro arg_cong [of _ _ concat] mapi_cong_length) (simp_all add: clearChains_def)

lemma chainAt_clearChains:
  assumes "chainAt (clearChains b) r = Some c"
  shows "c = []"
proof -
  from assms obtain p where p: "getPoint (clearChains b) (fst r) (snd r) = Some p" "chain p = c"
    unfolding chainAt_def by blast
  from p(1) have "getCell (clearChains b) (fst r) (snd r) = Some (Some p)" by (simp add: getPoint_getCell)
  then obtain p0 where "p = p0\<lparr>chain := [], liberties := None\<rparr>"
    unfolding getCell_clearChains by blast
  then have "chain p = []" by simp
  with p(2) show ?thesis by simp
qed

lemma scanInv_initial: "scanInv (clearChains b) [] (clearChains b)"
  unfolding scanInv_def using chainAt_clearChains [of b] by fastforce

lemma scanInv_updateChains:
  assumes "validBoard b"
  shows "scanInv (clearChains b) (scanOrder b) (updateChains True b)"
proof -
  have v0: "validBoard (clearChains b)"
    by (rule validBoard_stone [of _ b]) (simp_all add: stone_clearChains assms)
  have e: "scanOrder (clearChains b) = [] @ scanOrder (clearChains b)" by simp
  have u: "updateChains True b = foldl updateChainsAt (clearChains b) (scanOrder (clearChains b))"
    by (simp add: updateChains_def Let_def)
  from scanInv_foldl [OF e v0 scanInv_initial] show ?thesis
    unfolding u append_Nil scanOrder_clearChains .
qed

lemma firstMember_connected:
  "firstMember b r = Some m \<Longrightarrow> connected b m r \<and> m \<in> set (scanOrder b)"
  unfolding firstMember_def by (auto simp: find_Some_iff)

lemma firstMember_cong:
  assumes "connected b r r'"
  shows "firstMember b r = firstMember b r'"
proof -
  have "connected b m r \<longleftrightarrow> connected b m r'" for m
    using assms connected_trans connected_sym by blast
  then show ?thesis by (simp add: firstMember_def)
qed


lemma sorted_wrt_concat_iff:
  "sorted_wrt R (concat xss) \<longleftrightarrow>
     (\<forall>xs \<in> set xss. sorted_wrt R xs) \<and> sorted_wrt (\<lambda>xs ys. \<forall>x \<in> set xs. \<forall>y \<in> set ys. R x y) xss"
  by (induction xss) (auto simp: sorted_wrt_append)

lemma mapi_upt: "mapi f xs = map (\<lambda>k. f (int k) (xs ! k)) [0..<length xs]"
  by (rule nth_equalityI) (simp_all add: length_mapi nth_mapi)

lemma scanOrder_sorted: "sorted_wrt scanBefore (scanOrder b)"
proof -
  have "sorted_wrt scanBefore (map (\<lambda>j. (int i, int j)) [0..<n])" for i n
    unfolding sorted_wrt_map by (rule sorted_wrt_mono_rel [OF _ sorted_wrt_upt]) (simp add: scanBefore_def)
  moreover have "sorted_wrt (\<lambda>xs ys. \<forall>x \<in> set xs. \<forall>y \<in> set ys. scanBefore x y)
      (map (\<lambda>i. map (\<lambda>j. (int i, int j)) [0..<length (b ! i)]) [0..<length b])"
    unfolding sorted_wrt_map by (rule sorted_wrt_mono_rel [OF _ sorted_wrt_upt]) (auto simp: scanBefore_def)
  ultimately show ?thesis
    unfolding scanOrder_def mapi_upt [of _ b] mapi_upt sorted_wrt_concat_iff by auto
qed

lemma find_sorted_least:
  assumes "sorted_wrt R xs" "find P xs = Some m" "m' \<in> set xs" "P m'"
  shows "m = m' \<or> R m m'"
proof -
  from assms(2) obtain i where i: "i < length xs" "P (xs ! i)" "m = xs ! i" "\<forall>j<i. \<not> P (xs ! j)"
    unfolding find_Some_iff by blast
  from assms(3) obtain k where k: "k < length xs" "m' = xs ! k" unfolding in_set_conv_nth by blast
  with i(4) assms(4) have "\<not> k < i" by blast
  then consider "k = i" | "i < k" by linarith
  then show ?thesis
  proof cases
    case 1 then show ?thesis using i(3) k(2) by simp
  next
    case 2 then show ?thesis using sorted_wrt_nth_less [OF assms(1) 2 k(1)] i(3) k(2) by simp
  qed
qed

lemma firstMember_least:
  assumes "firstMember b r = Some m" "connected b m' r" "getCell b (fst m') (snd m') \<noteq> None"
  shows "m = m' \<or> scanBefore m m'"
  using find_sorted_least [OF scanOrder_sorted assms(1) [unfolded firstMember_def], of m'] assms(2,3)
  by (simp add: scanOrder_iff)

lemma chainsBoard_facts:
  "allPoints (updateChains True chainsBoard) =
     [\<lparr>color = Black, chain = ''0,0'', liberties = Some [(0, 2), (2, 0)], px = 0, py = 0\<rparr>,
      \<lparr>color = Black, chain = ''0,0'', liberties = Some [(0, 2), (2, 0)], px = 0, py = 1\<rparr>,
      \<lparr>color = Empty, chain = ''0,2'', liberties = Some [], px = 0, py = 2\<rparr>,
      \<lparr>color = Black, chain = ''0,0'', liberties = Some [(0, 2), (2, 0)], px = 1, py = 0\<rparr>,
      \<lparr>color = White, chain = ''1,1'', liberties = Some [(1, 2), (2, 1)], px = 1, py = 1\<rparr>,
      \<lparr>color = Empty, chain = ''0,2'', liberties = Some [], px = 1, py = 2\<rparr>,
      \<lparr>color = Empty, chain = ''2,0'', liberties = Some [], px = 2, py = 0\<rparr>,
      \<lparr>color = Empty, chain = ''2,0'', liberties = Some [], px = 2, py = 1\<rparr>,
      \<lparr>color = White, chain = ''2,2'', liberties = Some [(2, 1), (1, 2)], px = 2, py = 2\<rparr>]"
  by code_simp

text \<open>
  C5. For every valid board, after \<open>updateChains\<close> two points have equal \<open>chain\<close> fields
  exactly when they have the same colour and are connected by a path of orthogonal steps
  between points of one colour (a step never enters or leaves an absent cell). The chain id of
  a point is the rendering \<open>x,y\<close> of the first cell of the scan that is connected to it, and
  the scan goes by column and, inside a column, by row: every other cell connected to the point
  comes later in that order.
\<close>

theorem updateChains_components:
  assumes "validBoard b"
    and "p \<in> set (allPoints (updateChains True b))"
    and "q \<in> set (allPoints (updateChains True b))"
  shows "(chain p = chain q \<longleftrightarrow> color p = color q \<and> connected b (ref p) (ref q))
       \<and> (\<exists>m. find (\<lambda>m. connected b m (ref p)) (scanOrder b) = Some m
              \<and> chain p = numberToString (fst m) @ '','' @ numberToString (snd m)
              \<and> (\<forall>m'. connected b m' (ref p) \<and> getCell b (fst m') (snd m') \<noteq> None
                     \<longrightarrow> m = m' \<or> scanBefore m m'))"
proof -
  let ?b0 = "clearChains b" and ?bF = "updateChains True b"
  from scanInv_updateChains [OF assms(1)]
  have S2: "\<And>r c. chainAt ?bF r = Some c \<Longrightarrow> c \<noteq> [] \<Longrightarrow>
               \<exists>m \<in> set (scanOrder b). firstMember ?b0 r = Some m \<and> c = idOfPos m"
    and S3: "\<And>r. r \<in> set (scanOrder b) \<Longrightarrow> chainAt ?bF r \<noteq> Some []"
    unfolding scanInv_def by blast+
  have vF: "validBoard ?bF" using assms(1) by (rule validBoard_updateChains)
  have con0: "connected ?b0 = connected b" by (rule connected_stone_eq) (rule stone_clearChains)
  have fm0: "firstMember ?b0 = firstMember b"
    by (intro ext) (simp add: firstMember_def con0 scanOrder_clearChains)
  have lab: "\<exists>m. firstMember b (ref x) = Some m \<and> chain x = idOfPos m" if "x \<in> set (allPoints ?bF)" for x
  proof -
    from validBoard_getPoint [OF vF that] have g: "getPoint ?bF (px x) (py x) = Some x" .
    then have ch: "chainAt ?bF (ref x) = Some (chain x)" by (simp add: chainAt_def ref_def)
    from g have "stone ?bF (px x) (py x) \<noteq> None" by (simp add: stone_def getPoint_getCell)
    then have "stone b (px x) (py x) \<noteq> None" by (simp add: stone_updateChains)
    then have "getCell b (px x) (py x) \<noteq> None" by (simp add: stone_def)
    then have "ref x \<in> set (scanOrder b)" by (simp add: scanOrder_iff ref_def)
    from S3 [OF this] ch have "chain x \<noteq> []" by simp
    from S2 [OF ch this] show ?thesis by (auto simp: fm0)
  qed
  from lab [OF assms(2)] obtain mp where mp: "firstMember b (ref p) = Some mp" "chain p = idOfPos mp" by blast
  from lab [OF assms(3)] obtain mq where mq: "firstMember b (ref q) = Some mq" "chain q = idOfPos mq" by blast
  have colF: "colorAt ?bF i j = colorAt b i j" for i j by (rule colorAt_updateChains)
  have conF: "connected ?bF = connected b" by (rule connected_stone_eq) (rule stone_updateChains)
  have "chain p = chain q \<longleftrightarrow> color p = color q \<and> connected b (ref p) (ref q)"
  proof
    assume "chain p = chain q"
    with mp mq have e: "idOfPos mp = idOfPos mq" by simp
    from firstMember_connected [OF mp(1)] firstMember_connected [OF mq(1)]
    have cp: "connected b mp (ref p)" and cq: "connected b mq (ref q)"
      and n: "0 \<le> fst mp" "0 \<le> snd mp" "0 \<le> fst mq" "0 \<le> snd mq"
      using scanOrder_nonneg by blast+
    from idOfPos_inj [OF n e] cq have "connected b mp (ref q)" by simp
    with cp have c: "connected b (ref p) (ref q)" using connected_sym connected_trans by blast
    then have "connected ?bF (ref p) (ref q)" by (simp add: conF)
    from component_color [OF vF assms(2,3) this] c
    show "color p = color q \<and> connected b (ref p) (ref q)" by simp
  next
    assume "color p = color q \<and> connected b (ref p) (ref q)"
    then have "firstMember b (ref p) = firstMember b (ref q)" by (intro firstMember_cong) simp
    with mp mq show "chain p = chain q" by simp
  qed
  moreover have "\<exists>m. find (\<lambda>m. connected b m (ref p)) (scanOrder b) = Some m
              \<and> chain p = numberToString (fst m) @ '','' @ numberToString (snd m)
              \<and> (\<forall>m'. connected b m' (ref p) \<and> getCell b (fst m') (snd m') \<noteq> None
                     \<longrightarrow> m = m' \<or> scanBefore m m')"
  proof (intro exI conjI allI impI)
    show "find (\<lambda>m. connected b m (ref p)) (scanOrder b) = Some mp"
      using mp(1) by (simp add: firstMember_def)
    show "chain p = numberToString (fst mp) @ '','' @ numberToString (snd mp)"
      using mp(2) by (simp add: idOfPos_def)
    show "mp = m' \<or> scanBefore mp m'"
      if "connected b m' (ref p) \<and> getCell b (fst m') (snd m') \<noteq> None" for m'
      using firstMember_least [OF mp(1)] that by blast
  qed
  ultimately show ?thesis by (rule conjI)
qed

theorem updateChains_components_witness:
  "validBoard chainsBoard
   \<and> \<lparr>color = Black, chain = ''0,0'', liberties = Some [(0, 2), (2, 0)], px = 1, py = 0\<rparr>
       \<in> set (allPoints (updateChains True chainsBoard))
   \<and> \<lparr>color = Black, chain = ''0,0'', liberties = Some [(0, 2), (2, 0)], px = 0, py = 1\<rparr>
       \<in> set (allPoints (updateChains True chainsBoard))
   \<and> connected chainsBoard (1, 0) (0, 1)
   \<and> (\<exists>m. find (\<lambda>m. connected chainsBoard m (1, 0)) (scanOrder chainsBoard) = Some m
          \<and> ''0,0'' = numberToString (fst m) @ '','' @ numberToString (snd m)
          \<and> (\<forall>m'. connected chainsBoard m' (1, 0) \<and> getCell chainsBoard (fst m') (snd m') \<noteq> None
                 \<longrightarrow> m = m' \<or> scanBefore m m'))"
proof -
  let ?p = "\<lparr>color = Black, chain = ''0,0'', liberties = Some [(0, 2), (2, 0)], px = 1, py = 0\<rparr>"
  let ?q = "\<lparr>color = Black, chain = ''0,0'', liberties = Some [(0, 2), (2, 0)], px = 0, py = 1\<rparr>"
  have v: "validBoard chainsBoard" unfolding chainsBoard_def by (rule validBoard_boardFromSimpleBoard)
  have p: "?p \<in> set (allPoints (updateChains True chainsBoard))" by (simp add: chainsBoard_facts)
  have q: "?q \<in> set (allPoints (updateChains True chainsBoard))" by (simp add: chainsBoard_facts)
  show ?thesis
    using v p q updateChains_components [OF v p q] by (simp add: ref_def)
qed



section \<open>The liberties that the chain analysis records\<close>

lemma set_getAllNeighbors:
  "set (getAllNeighbors b c) =
     {n. \<exists>p \<in> set c. n \<in> set (getArrayFromNeighbor (findNeighbors b (px p) (py p))) \<and> \<not> isPointInChain n c}"
proof -
  have "set (foldl (\<lambda>chainNeighbors p.
              foldl setAdd chainNeighbors
                (filter (\<lambda>neighborPoint. \<not> isPointInChain neighborPoint c0)
                   (getArrayFromNeighbor (findNeighbors b (px p) (py p))))) acc cs)
          = set acc \<union> {n. \<exists>p \<in> set cs. n \<in> set (getArrayFromNeighbor (findNeighbors b (px p) (py p)))
                                 \<and> \<not> isPointInChain n c0}" for acc c0 cs
  proof (induction cs arbitrary: acc)
    case Nil
    show ?case by simp
  next
    case (Cons p cs)
    have s: "set (foldl setAdd acc xs) = set acc \<union> set xs" for acc xs :: "PointState list"
      by (induction xs arbitrary: acc) (auto simp: setAdd_def)
    show ?case unfolding foldl_Cons Cons.IH s by auto
  qed
  from this [of c "[]" c] show ?thesis unfolding getAllNeighbors_def by simp
qed

lemma isPointInChain_ref: "isPointInChain n c \<longleftrightarrow> ref n \<in> ref ` set c"
  unfolding isPointInChain_def ref_def image_iff prod.inject by (metis (no_types))

lemma findLibertiesForChain_refs:
  assumes v: "validBoard b" and sub: "set members \<subseteq> set (allPoints b)"
    and comp: "ref ` set members = {a. connected b r a}"
  shows "set (map ref (findLibertiesForChain b members)) = chainLiberties b r"
proof -
  have c1: "connected b r (ref p)" if "p \<in> set members" for p
  proof -
    from that have "ref p \<in> ref ` set members" by (rule imageI)
    then show ?thesis unfolding comp by simp
  qed
  have c2: "\<exists>p \<in> set members. ref p = a" if "connected b r a" for a
  proof -
    from that have "a \<in> ref ` set members" unfolding comp by simp
    then show ?thesis by (metis imageE)
  qed
  have c3: "isPointInChain n members \<longleftrightarrow> connected b r (ref n)" for n
    unfolding isPointInChain_ref comp by simp
  show ?thesis
  proof (intro set_eqI iffI)
    fix l assume "l \<in> set (map ref (findLibertiesForChain b members))"
    then obtain n where n0: "n \<in> set (findLibertiesForChain b members)" "ref n = l"
      unfolding set_map by (rule imageE) simp
    from n0(1) have n1: "color n = Empty" "n \<in> set (getAllNeighbors b members)"
      by (simp_all add: findLibertiesForChain_def)
    from n1(2) obtain p where n2: "p \<in> set members"
        "n \<in> set (getArrayFromNeighbor (findNeighbors b (px p) (py p)))" "\<not> isPointInChain n members"
      unfolding set_getAllNeighbors mem_Collect_eq by (rule bexE) simp
    from n2(2) obtain r' where r': "orthogonal (px p, py p) r'" "getPoint b (fst r') (snd r') = Some n"
      unfolding neighbors_iff by (elim exE conjE)
    from validBoard_ref [OF v r'(2)] n0(2) have l: "r' = l" by simp
    have cp: "connected b r (px p, py p)" using c1 [OF n2(1)] by (simp add: ref_def)
    have 1: "colorAt b (fst l) (snd l) = Some Empty"
      using r'(2) n1(1) unfolding l by (simp add: colorAt_def)
    have 2: "\<exists>a. connected b r a \<and> orthogonal a l"
      using cp r'(1) unfolding l by (intro exI [of _ "(px p, py p)"] conjI)
    have 3: "\<not> connected b r l" using n2(3) unfolding c3 n0(2) .
    from 1 2 3 show "l \<in> chainLiberties b r" by (simp add: chainLiberties_def libertyOf_def)
  next
    fix l assume "l \<in> chainLiberties b r"
    then have e: "colorAt b (fst l) (snd l) = Some Empty" and ex: "\<exists>a. connected b r a \<and> orthogonal a l"
      and nc: "\<not> connected b r l"
      by (simp_all add: chainLiberties_def libertyOf_def)
    from ex obtain a where a: "connected b r a" "orthogonal a l" by (elim exE conjE)
    from c2 [OF a(1)] obtain p where p: "p \<in> set members" "ref p = a" by (elim bexE)
    from e obtain n where n: "getPoint b (fst l) (snd l) = Some n" "color n = Empty"
      unfolding colorAt_def by (cases "getPoint b (fst l) (snd l)") simp_all
    from validBoard_ref [OF v n(1)] have rn: "ref n = l" by simp
    have o: "orthogonal (px p, py p) l" using a(2) p(2) by (simp add: ref_def)
    have "n \<in> set (getArrayFromNeighbor (findNeighbors b (px p) (py p)))"
      unfolding neighbors_iff using o n(1) by (intro exI [of _ l] conjI)
    moreover have "\<not> isPointInChain n members" unfolding c3 rn by (rule nc)
    ultimately have "n \<in> set (getAllNeighbors b members)"
      unfolding set_getAllNeighbors mem_Collect_eq using p(1) by (intro bexI [of _ p] conjI)
    with n(2) have "n \<in> set (findLibertiesForChain b members)"
      by (simp add: findLibertiesForChain_def)
    then have "ref n \<in> set (map ref (findLibertiesForChain b members))" unfolding set_map by (rule imageI)
    then show "l \<in> set (map ref (findLibertiesForChain b members))" unfolding rn .
  qed
qed

lemma libsAt_updateChainsAt:
  assumes v: "validBoard b" and g: "getPoint b (fst pos) (snd pos) = Some p" and c: "chain p = []"
  shows "\<exists>ls. set ls = chainLiberties b pos
           \<and> (\<forall>r. libsAt (updateChainsAt b pos) r =
                  (if connected b pos r \<and> getPoint b (fst r) (snd r) \<noteq> None then Some (Some ls)
                   else libsAt b r))"
proof -
  obtain i j where pos: "pos = (i, j)" by (cases pos)
  from g pos have g': "getPoint b i j = Some p" by simp
  have pa: "p \<in> set (allPoints b)" using g' by (rule getPoint_allPoints)
  have fin: "floodFinal b p (floodLoop b [] [p] [p])"
    using v pa floodInv_initial [OF pa] by (rule floodLoop_final)
  let ?members = "floodLoop b [] [p] [p]"
  have m: "findAdjacentPointsInChain b i j = Inr ?members"
    using g' by (rule findAdjacentPointsInChain_point)
  have ms: "ref ` set ?members = {r. connected b pos r}"
    using floodFinal_component [OF v pa fin] validBoard_ref [OF v g'] by (simp add: pos)
  have sub: "set ?members \<subseteq> set (allPoints b)" using fin by (auto simp: floodFinal_def)
  let ?ls = "map ref (findLibertiesForChain b ?members)"
  let ?f = "\<lambda>member. member\<lparr>chain := chainId p, liberties := Some ?ls\<rparr>"
  have u: "updateChainsAt b pos = foldl (modifyPoint ?f) b (map ref ?members)"
    using g' c m by (simp add: updateChainsAt_def pos Let_def)
  have cell: "getCell (updateChainsAt b pos) (fst r) (snd r) =
          (if connected b pos r then map_option (map_option ?f) (getCell b (fst r) (snd r))
           else getCell b (fst r) (snd r))" for r
    unfolding u using ms
    by (subst getCell_foldl_modifyPoint) (auto simp: pos)
  have "libsAt (updateChainsAt b pos) r =
                  (if connected b pos r \<and> getPoint b (fst r) (snd r) \<noteq> None then Some (Some ?ls)
                   else libsAt b r)" for r
  proof (cases "getCell b (fst r) (snd r)")
    case None
    with cell [of r] show ?thesis by (simp add: libsAt_def getPoint_def)
  next
    case (Some cell0)
    show ?thesis
    proof (cases cell0)
      case None
      with Some cell [of r] show ?thesis by (simp add: libsAt_def getPoint_def)
    next
      case (Some q)
      with \<open>getCell b (fst r) (snd r) = Some cell0\<close> cell [of r] show ?thesis
        by (simp add: libsAt_def getPoint_def)
    qed
  qed
  moreover have "set ?ls = chainLiberties b pos"
    using v sub ms by (rule findLibertiesForChain_refs)
  ultimately show ?thesis by blast
qed


lemma chainLiberties_connected:
  assumes "connected b r r'"
  shows "chainLiberties b r = chainLiberties b r'"
proof -
  have "connected b r a \<longleftrightarrow> connected b r' a" for a
    using assms connected_trans connected_sym by blast
  then show ?thesis by (simp add: chainLiberties_def libertyOf_def)
qed

lemma chainLiberties_stone_eq:
  assumes "\<And>i j. stone b' i j = stone b i j"
  shows "chainLiberties b' r = chainLiberties b r"
  by (simp add: chainLiberties_def libertyOf_def connected_stone_eq [of b' b, OF assms]
      colorAt_stone_eq [of b' b, OF assms])

lemma chainLiberties_stone:
  assumes "colorAt b (fst r) (snd r) = Some c" "c \<noteq> Empty"
  shows "chainLiberties b r = {l. libertyOf b r l}"
proof -
  have "\<not> connected b r l" if "libertyOf b r l" for l
  proof
    assume "connected b r l"
    from connected_color [OF this] that assms show False by (simp add: libertyOf_def)
  qed
  then show ?thesis by (auto simp: chainLiberties_def)
qed

lemma libInv_step:
  assumes v0: "validBoard b0" and inv: "scanInv b0 ds bk" and li: "libInv b0 bk"
  shows "libInv b0 (updateChainsAt bk pos)"
proof -
  from inv have S1: "\<And>i j. stone bk i j = stone b0 i j"
    unfolding scanInv_def by blast
  have vk: "validBoard bk" using S1 v0 by (rule validBoard_stone)
  have con: "connected bk = connected b0" using S1 by (rule connected_stone_eq)
  show ?thesis
  proof (cases "chainAt bk pos = Some []")
    case False
    then have same: "updateChainsAt bk pos = bk"
      by (intro chainAt_updateChainsAt_skip) (auto simp: chainAt_def)
    show ?thesis unfolding same by (rule li)
  next
    case True
    then obtain p where g: "getPoint bk (fst pos) (snd pos) = Some p" and c: "chain p = []"
      by (auto simp: chainAt_def)
    have new: "chainAt (updateChainsAt bk pos) r =
                 (if connected b0 pos r \<and> chainAt bk r \<noteq> None then Some (idOfPos pos) else chainAt bk r)" for r
      using chainAt_updateChainsAt [OF vk g c, of r] by (simp add: con chainAt_def)
    from libsAt_updateChainsAt [OF vk g c] obtain ls where ls: "set ls = chainLiberties bk pos"
      and lnew0: "\<And>r. libsAt (updateChainsAt bk pos) r =
                  (if connected bk pos r \<and> getPoint bk (fst r) (snd r) \<noteq> None then Some (Some ls)
                   else libsAt bk r)" by blast
    have lnew: "libsAt (updateChainsAt bk pos) r =
                  (if connected b0 pos r \<and> chainAt bk r \<noteq> None then Some (Some ls) else libsAt bk r)" for r
      using lnew0 [of r] by (simp add: con chainAt_def)
    have ls0: "set ls = chainLiberties b0 pos"
      using ls chainLiberties_stone_eq [of bk b0, OF S1] by simp
    show ?thesis
      unfolding libInv_def
    proof (intro allI impI)
      fix r c' assume a: "chainAt (updateChainsAt bk pos) r = Some c'" "c' \<noteq> []"
      show "\<exists>ls. libsAt (updateChainsAt bk pos) r = Some (Some ls) \<and> set ls = chainLiberties b0 r"
      proof (cases "connected b0 pos r \<and> chainAt bk r \<noteq> None")
        case True
        then have "libsAt (updateChainsAt bk pos) r = Some (Some ls)" unfolding lnew by (rule if_P)
        moreover from True have "chainLiberties b0 pos = chainLiberties b0 r"
          by (intro chainLiberties_connected) simp
        ultimately show ?thesis using ls0 by simp
      next
        case False
        then have "chainAt (updateChainsAt bk pos) r = chainAt bk r"
          unfolding new by (rule if_not_P)
        moreover from False have e: "libsAt (updateChainsAt bk pos) r = libsAt bk r"
          unfolding lnew by (rule if_not_P)
        ultimately have True by simp
        from \<open>chainAt (updateChainsAt bk pos) r = chainAt bk r\<close> a have "chainAt bk r = Some c'" by simp
        with li a(2) show ?thesis unfolding libInv_def e by blast
      qed
    qed
  qed
qed

lemma libInv_foldl:
  "scanOrder b0 = ds @ rest \<Longrightarrow> validBoard b0 \<Longrightarrow> scanInv b0 ds bk \<Longrightarrow> libInv b0 bk
     \<Longrightarrow> libInv b0 (foldl updateChainsAt bk rest)"
proof (induction rest arbitrary: ds bk)
  case Nil
  then show ?case by simp
next
  case (Cons pos rest)
  from Cons.prems(1,2,3) have s: "scanInv b0 (ds @ [pos]) (updateChainsAt bk pos)"
    by (intro scanInv_step)
  from Cons.prems(2,3,4) have l: "libInv b0 (updateChainsAt bk pos)"
    by (rule libInv_step)
  from Cons.IH [OF _ Cons.prems(2) s l] Cons.prems(1) show ?case by simp
qed

lemma libInv_updateChains:
  assumes "validBoard b"
  shows "libInv b (updateChains True b)"
proof -
  have v0: "validBoard (clearChains b)"
    by (rule validBoard_stone [of _ b]) (simp_all add: stone_clearChains assms)
  have e: "scanOrder (clearChains b) = [] @ scanOrder (clearChains b)" by simp
  have u: "updateChains True b = foldl updateChainsAt (clearChains b) (scanOrder (clearChains b))"
    by (simp add: updateChains_def Let_def)
  have i: "libInv (clearChains b) (clearChains b)"
    unfolding libInv_def using chainAt_clearChains [of b] by blast
  have "libInv (clearChains b) (updateChains True b)"
    unfolding u using e v0 scanInv_initial i by (rule libInv_foldl)
  then show ?thesis
    unfolding libInv_def chainLiberties_stone_eq [of "clearChains b" b, OF stone_clearChains] .
qed

text \<open>
  After \<open>updateChains\<close> every point has a chain id, the id of the first cell of its chain, and
  the liberties of its chain.
\<close>

lemma updateChains_point:
  assumes "validBoard b" "p \<in> set (allPoints (updateChains True b))"
  shows "colorAt b (px p) (py p) = Some (color p)"
    and "\<exists>m. firstMember b (ref p) = Some m \<and> m \<in> set (scanOrder b) \<and> chain p = idOfPos m"
    and "\<exists>ls. liberties p = Some ls \<and> set ls = chainLiberties b (ref p)"
proof -
  let ?b0 = "clearChains b" and ?bF = "updateChains True b"
  from scanInv_updateChains [OF assms(1)]
  have S2: "\<And>r c. chainAt ?bF r = Some c \<Longrightarrow> c \<noteq> [] \<Longrightarrow>
               \<exists>m \<in> set (scanOrder b). firstMember ?b0 r = Some m \<and> c = idOfPos m"
    and S3: "\<And>r. r \<in> set (scanOrder b) \<Longrightarrow> chainAt ?bF r \<noteq> Some []"
    unfolding scanInv_def by blast+
  have vF: "validBoard ?bF" using assms(1) by (rule validBoard_updateChains)
  have con0: "connected ?b0 = connected b" by (rule connected_stone_eq) (rule stone_clearChains)
  have fm0: "firstMember ?b0 = firstMember b"
    by (intro ext) (simp add: firstMember_def con0 scanOrder_clearChains)
  from validBoard_getPoint [OF vF assms(2)] have g: "getPoint ?bF (px p) (py p) = Some p" .
  then have ch: "chainAt ?bF (ref p) = Some (chain p)" and lb: "libsAt ?bF (ref p) = Some (liberties p)"
    by (simp_all add: chainAt_def libsAt_def ref_def)
  from g have "colorAt ?bF (px p) (py p) = Some (color p)" by (rule colorAt_point)
  then show "colorAt b (px p) (py p) = Some (color p)" by (simp add: colorAt_updateChains)
  from g have "stone ?bF (px p) (py p) \<noteq> None" by (simp add: stone_def getPoint_getCell)
  then have "stone b (px p) (py p) \<noteq> None" by (simp add: stone_updateChains)
  then have "getCell b (px p) (py p) \<noteq> None" by (simp add: stone_def)
  then have "ref p \<in> set (scanOrder b)" by (simp add: scanOrder_iff ref_def)
  from S3 [OF this] ch have ne: "chain p \<noteq> []" by simp
  from S2 [OF ch ne] show "\<exists>m. firstMember b (ref p) = Some m \<and> m \<in> set (scanOrder b) \<and> chain p = idOfPos m"
    by (auto simp: fm0)
  from libInv_updateChains [OF assms(1)] ch ne
  obtain ls where l1: "libsAt ?bF (ref p) = Some (Some ls)" and l2: "set ls = chainLiberties b (ref p)"
    unfolding libInv_def by blast
  from l1 lb have "liberties p = Some ls" by simp
  then show "\<exists>ls. liberties p = Some ls \<and> set ls = chainLiberties b (ref p)"
    using l2 by (intro exI [of _ ls] conjI)
qed

lemma updateChains_same_chain:
  assumes "validBoard b" "p \<in> set (allPoints (updateChains True b))"
    "q \<in> set (allPoints (updateChains True b))"
  shows "chain p = chain q \<longleftrightarrow> connected b (ref p) (ref q)"
proof -
  from updateChains_point(2) [OF assms(1,2)] obtain mp
    where mp: "firstMember b (ref p) = Some mp" "mp \<in> set (scanOrder b)" "chain p = idOfPos mp" by blast
  from updateChains_point(2) [OF assms(1,3)] obtain mq
    where mq: "firstMember b (ref q) = Some mq" "mq \<in> set (scanOrder b)" "chain q = idOfPos mq" by blast
  show ?thesis
  proof
    assume "chain p = chain q"
    with mp mq have e: "idOfPos mp = idOfPos mq" by simp
    from firstMember_connected [OF mp(1)] firstMember_connected [OF mq(1)]
    have cp: "connected b mp (ref p)" and cq: "connected b mq (ref q)" by simp_all
    from scanOrder_nonneg [OF mp(2)] scanOrder_nonneg [OF mq(2)]
    have n: "0 \<le> fst mp" "0 \<le> snd mp" "0 \<le> fst mq" "0 \<le> snd mq" by simp_all
    from idOfPos_inj [OF n e] cq have "connected b mp (ref q)" by simp
    with cp show "connected b (ref p) (ref q)" using connected_sym connected_trans by blast
  next
    assume "connected b (ref p) (ref q)"
    then have "firstMember b (ref p) = firstMember b (ref q)" by (rule firstMember_cong)
    with mp mq show "chain p = chain q" by simp
  qed
qed


lemma getAllChains_covers:
  assumes "q \<in> set (allPoints b)" "chain q \<noteq> []"
  obtains c where "c \<in> set (getAllChains b)" "q \<in> set c" "chain (hd c) = chain q"
proof -
  from entriesOf_getAllChains [of b] assms
  obtain ps where ps: "(chain q, ps) \<in> set (foldl addToChains [] (allPoints b))" "q \<in> set ps"
    unfolding entriesOf_def by blast
  then have c: "ps \<in> set (getAllChains b)" unfolding getAllChains_def by force
  from getAllChains_points [OF c ps(2)] have "chain (hd ps) = chain q" by simp
  with c ps(2) that show thesis by blast
qed

lemma libertyOf_connected:
  assumes "connected b r r'"
  shows "libertyOf b r l \<longleftrightarrow> libertyOf b r' l"
proof -
  have "connected b r a \<longleftrightarrow> connected b r' a" for a
    using assms connected_trans connected_sym by blast
  then show ?thesis by (simp add: libertyOf_def)
qed

text \<open>
  The chains that the chain analysis leaves without a liberty are the chains of stones that
  have no liberty on the board.
\<close>

lemma zeroLibertyChains_iff:
  assumes v: "validBoard b" and c0: "c0 \<noteq> Empty"
  shows "(\<exists>c \<in> set (zeroLibertyChains (updateChains True b) c0). (i, j) \<in> ref ` set c)
           \<longleftrightarrow> colorAt b i j = Some c0 \<and> (\<forall>l. \<not> libertyOf b (i, j) l)"
proof
  let ?F = "updateChains True b"
  assume "\<exists>c \<in> set (zeroLibertyChains ?F c0). (i, j) \<in> ref ` set c"
  then obtain c q where c: "c \<in> set (zeroLibertyChains ?F c0)" and q: "q \<in> set c" "ref q = (i, j)"
    by (metis imageE)
  from c have g: "c \<in> set (getAllChains ?F)" and hc: "color (hd c) = c0"
    and z: "map_option length (liberties (hd c)) = Some 0"
    by (simp_all add: zeroLibertyChains_def findCapturedChainOfColor_def)
  from getAllChains_nonempty [OF g] have h: "hd c \<in> set c" by simp
  from getAllChains_points [OF g h] getAllChains_points [OF g q(1)]
  have ha: "hd c \<in> set (allPoints ?F)" and qa: "q \<in> set (allPoints ?F)" and e: "chain (hd c) = chain q"
    by simp_all
  from updateChains_same_chain [OF v ha qa] e have con: "connected b (ref (hd c)) (i, j)"
    by (simp add: q(2))
  from updateChains_point(1) [OF v ha] hc
  have col: "colorAt b (fst (ref (hd c))) (snd (ref (hd c))) = Some c0" by (simp add: ref_def)
  from connected_color [OF con] col have 1: "colorAt b i j = Some c0" by simp
  from updateChains_point(3) [OF v ha] obtain ls
    where ls: "liberties (hd c) = Some ls" "set ls = chainLiberties b (ref (hd c))" by blast
  from z ls(1) have "ls = []" by simp
  with ls(2) have "chainLiberties b (ref (hd c)) = {}" by simp
  then have "{l. libertyOf b (ref (hd c)) l} = {}" unfolding chainLiberties_stone [OF col c0] .
  then have "\<forall>l. \<not> libertyOf b (ref (hd c)) l" by simp
  then have 2: "\<forall>l. \<not> libertyOf b (i, j) l" unfolding libertyOf_connected [OF con] .
  from 1 2 show "colorAt b i j = Some c0 \<and> (\<forall>l. \<not> libertyOf b (i, j) l)" by (rule conjI)
next
  let ?F = "updateChains True b"
  assume a: "colorAt b i j = Some c0 \<and> (\<forall>l. \<not> libertyOf b (i, j) l)"
  then have "colorAt ?F i j = Some c0" by (simp add: colorAt_updateChains)
  then obtain q where q: "getPoint ?F i j = Some q" "color q = c0" by (auto simp: colorAt_def)
  have vF: "validBoard ?F" using v by (rule validBoard_updateChains)
  from q(1) have qa: "q \<in> set (allPoints ?F)" by (rule getPoint_allPoints)
  from validBoard_ref [OF vF q(1)] have rq: "ref q = (i, j)" .
  from updateChains_point(2) [OF v qa] obtain m where "chain q = idOfPos m" by blast
  then have "chain q \<noteq> []" by (simp add: idOfPos_nonempty)
  from getAllChains_covers [OF qa this]
  obtain c where c: "c \<in> set (getAllChains ?F)" "q \<in> set c" "chain (hd c) = chain q" .
  from getAllChains_nonempty [OF c(1)] have h: "hd c \<in> set c" by simp
  from getAllChains_points [OF c(1) h] have ha: "hd c \<in> set (allPoints ?F)" by simp
  from updateChains_same_chain [OF v ha qa] c(3) have con: "connected b (ref (hd c)) (i, j)"
    by (simp add: rq)
  from connected_color [OF con] a
  have col: "colorAt b (fst (ref (hd c))) (snd (ref (hd c))) = Some c0" by simp
  with updateChains_point(1) [OF v ha] have hc: "color (hd c) = c0" by (simp add: ref_def)
  from updateChains_point(3) [OF v ha] obtain ls
    where ls: "liberties (hd c) = Some ls" "set ls = chainLiberties b (ref (hd c))" by blast
  from a have "\<forall>l. \<not> libertyOf b (ref (hd c)) l" unfolding libertyOf_connected [OF con] by simp
  then have "set ls = {}" unfolding ls(2) chainLiberties_stone [OF col c0] by simp
  with ls(1) have "map_option length (liberties (hd c)) = Some 0" by simp
  with c(1) hc have "c \<in> set (zeroLibertyChains ?F c0)"
    by (simp add: zeroLibertyChains_def findCapturedChainOfColor_def)
  moreover from c(2) rq have "(i, j) \<in> ref ` set c" by (metis imageI)
  ultimately show "\<exists>c \<in> set (zeroLibertyChains ?F c0). (i, j) \<in> ref ` set c" by (rule bexI [rotated])
qed

text \<open>
  C4. Let the moving player be \<open>P\<close> and suppose that, on the board before capture resolution,
  at least one stone of the opposing colour is in a chain without a liberty: no cell of its
  chain has an empty point next to it. Then \<open>updateCaptures\<close> empties exactly the cells of the
  opposing chains without a liberty. Every other cell keeps its colour; in particular every
  stone of \<open>P\<close> stays, also in a chain of \<open>P\<close> that has no liberty, so such a chain can only
  be removed when no opposing chain is without a liberty.
\<close>

theorem updateCaptures_priority:
  assumes "validBoard b"
    and "\<exists>i j. colorAt b i j = Some (if player = White then Black else White)
               \<and> (\<forall>l. \<not> libertyOf b (i, j) l)"
  shows "(\<forall>i j. colorAt (updateCaptures player True b) i j =
            (if colorAt b i j = Some (if player = White then Black else White)
                \<and> (\<forall>l. \<not> libertyOf b (i, j) l)
             then Some Empty else colorAt b i j))
       \<and> (\<forall>i j. colorAt b i j = Some player
            \<longrightarrow> colorAt (updateCaptures player True b) i j = Some player)"
proof -
  let ?opp = "if player = White then Black else White"
  let ?b1 = "updateChains True b"
  let ?enemy = "zeroLibertyChains ?b1 ?opp"
  have o: "?opp \<noteq> Empty" by simp
  have op: "?opp \<noteq> player" by simp
  note iff = zeroLibertyChains_iff [OF assms(1) o]
  from assms(2) obtain i0 j0 where "\<exists>c \<in> set ?enemy. (i0, j0) \<in> ref ` set c"
    unfolding iff [symmetric] by blast
  then have ne: "?enemy \<noteq> []" by auto
  have res: "colorAt (updateCaptures player True b) i j =
               (if \<exists>c \<in> set ?enemy. (i, j) \<in> ref ` set c then map_option (\<lambda>c. Empty) (colorAt ?b1 i j)
                else colorAt ?b1 i j)" for i j
    unfolding updateCaptures_enemy [OF ne] colorAt_updateChains colorAt_foldl_captureChain ..
  have 1: "colorAt (updateCaptures player True b) i j =
            (if colorAt b i j = Some ?opp \<and> (\<forall>l. \<not> libertyOf b (i, j) l)
             then Some Empty else colorAt b i j)" for i j
    unfolding res iff colorAt_updateChains by simp
  have 2: "colorAt (updateCaptures player True b) i j = Some player" if "colorAt b i j = Some player" for i j
    unfolding 1 using that op by simp
  from 1 2 show ?thesis by blast
qed


lemma recorded_liberties:
  assumes "validBoard b" "getPoint (updateChains True b) i j = Some p" "color p \<noteq> Empty"
  shows "\<exists>ls. liberties p = Some ls \<and> set ls = {l. libertyOf b (i, j) l}"
proof -
  have vF: "validBoard (updateChains True b)" using assms(1) by (rule validBoard_updateChains)
  from assms(2) have pa: "p \<in> set (allPoints (updateChains True b))" by (rule getPoint_allPoints)
  from validBoard_ref [OF vF assms(2)] have r: "ref p = (i, j)" .
  from updateChains_point(1) [OF assms(1) pa] r have "colorAt b (fst (i, j)) (snd (i, j)) = Some (color p)"
    by (simp add: ref_def)
  from chainLiberties_stone [OF this assms(3)] updateChains_point(3) [OF assms(1) pa] r
  show ?thesis by simp
qed

lemma koPlayed_facts:
  "getPoint (updateChains True koPlayed) 1 1
     = Some \<lparr>color = White, chain = ''1,1'', liberties = Some [], px = 1, py = 1\<rparr>"
  "getPoint (updateChains True koPlayed) 2 1
     = Some \<lparr>color = Black, chain = ''2,1'', liberties = Some [], px = 2, py = 1\<rparr>"
  "colorAt koPlayed 1 1 = Some White"
  "colorAt koPlayed 2 1 = Some Black"
  by code_simp+

theorem updateCaptures_priority_witness:
  "validBoard koPlayed
   \<and> colorAt koPlayed 1 1 = Some (if Black = White then Black else White)
   \<and> (\<forall>l. \<not> libertyOf koPlayed (1, 1) l)
   \<and> colorAt koPlayed 2 1 = Some Black
   \<and> (\<forall>l. \<not> libertyOf koPlayed (2, 1) l)
   \<and> colorAt (updateCaptures Black True koPlayed) 1 1 = Some Empty
   \<and> colorAt (updateCaptures Black True koPlayed) 2 1 = Some Black"
proof -
  have v: "validBoard koPlayed" unfolding koPlayed_def by (rule validBoard_boardFromSimpleBoard)
  have w: "\<forall>l. \<not> libertyOf koPlayed (1, 1) l"
    using recorded_liberties [OF v koPlayed_facts(1)] by simp
  have k: "\<forall>l. \<not> libertyOf koPlayed (2, 1) l"
    using recorded_liberties [OF v koPlayed_facts(2)] by simp
  have h: "\<exists>i j. colorAt koPlayed i j = Some (if Black = White then Black else White)
               \<and> (\<forall>l. \<not> libertyOf koPlayed (i, j) l)"
    using w koPlayed_facts(3) by (intro exI [of _ 1] conjI) simp_all
  from updateCaptures_priority [OF v h] w k v show ?thesis
    by (simp add: koPlayed_facts(3,4))
qed



end
